theory Spec2Isabelle
  imports Main
begin

section \<open>RepoNuke: a shallow embedding of \<^verbatim>\<open>batch_delete.py\<close>\<close>

text \<open>
  The script is a sequential driver around the external \<^verbatim>\<open>gh\<close> client. The embedding
  keeps the \<^verbatim>\<open>BatchDeleter\<close> object as a record that every method takes and returns,
  and makes the three kinds of effect explicit:
  \<^item> every line printed, every log line, every external command (with its result), every
    read from the terminal and every pause is appended to a \<open>trace\<close>;
  \<^item> \<^verbatim>\<open>sys.exit(n)\<close> and an exception nobody catches are results of the method
    (\<open>SysExit n\<close>, \<open>Uncaught x\<close>), and end the run;
  \<^item> the outside world is a parameter: what \<^verbatim>\<open>gh\<close> answers (a function of the command and
    of everything that happened before it), what the configuration and list files hold,
    and the lines waiting on the terminal.

  Left out: the parsing of the command line (\<^verbatim>\<open>main\<close> starts from the parsed arguments),
  the time stamps, colours and pictograms of the output, failures to write the log file, and
  Ctrl-C anywhere but at the two prompts. A configuration file is either unusable or an
  object whose \<^verbatim>\<open>username\<close> is a string and whose \<^verbatim>\<open>repositories\<close> is a list of strings.
\<close>

subsection \<open>Python string primitives\<close>


definition is_space :: "char \<Rightarrow> bool" where
  "is_space c = (c \<in> set [CHR 0x09, CHR 0x0A, CHR 0x0B, CHR 0x0C, CHR 0x0D,
                           CHR 0x1C, CHR 0x1D, CHR 0x1E, CHR 0x1F, CHR 0x20])"

definition py_strip :: "string \<Rightarrow> string" where
  "py_strip s = rev (dropWhile is_space (rev (dropWhile is_space s)))"

definition lower_char :: "char \<Rightarrow> char" where
  "lower_char c =
     (case map_of (zip ''ABCDEFGHIJKLMNOPQRSTUVWXYZ'' ''abcdefghijklmnopqrstuvwxyz'') c of
        Some l \<Rightarrow> l
      | None \<Rightarrow> c)"

definition py_lower :: "string \<Rightarrow> string" where
  "py_lower s = map lower_char s"

text \<open>\<^verbatim>\<open>s.split()\<close>: the maximal runs of characters that are not white space.\<close>

fun split_acc :: "string \<Rightarrow> string \<Rightarrow> string list" where
  "split_acc cur [] = (if cur = [] then [] else [cur])"
| "split_acc cur (c # cs) =
     (if is_space c then (if cur = [] then split_acc [] cs else cur # split_acc [] cs)
      else split_acc (cur @ [c]) cs)"

definition py_split :: "string \<Rightarrow> string list" where
  "py_split s = split_acc [] s"

text \<open>\<^verbatim>\<open>s.split('\n')\<close>: the pieces between line feeds, empty pieces included.\<close>

fun split_on_acc :: "char \<Rightarrow> string \<Rightarrow> string \<Rightarrow> string list" where
  "split_on_acc sep cur [] = [cur]"
| "split_on_acc sep cur (c # cs) =
     (if c = sep then cur # split_on_acc sep [] cs else split_on_acc sep (cur @ [c]) cs)"

definition py_split_lines :: "string \<Rightarrow> string list" where
  "py_split_lines s = split_on_acc (CHR 0x0A) [] s"

definition startswith_hash :: "string \<Rightarrow> bool" where
  "startswith_hash s = (case s of [] \<Rightarrow> False | c # _ \<Rightarrow> c = CHR ''#'')"

text \<open>
  \<^verbatim>\<open>int(s)\<close> in base ten, on ASCII text of at most 640 characters: white space around
  is dropped, one sign is allowed, then digits, with single underscores allowed between
  two digits. \<open>None\<close> is \<^verbatim>\<open>ValueError\<close>.
\<close>

definition is_digit :: "char \<Rightarrow> bool" where
  "is_digit c = (let n = (of_char c :: nat) in 48 \<le> n \<and> n \<le> 57)"

definition digit_val :: "char \<Rightarrow> nat" where
  "digit_val c = (of_char c :: nat) - 48"

fun digits_acc :: "bool \<Rightarrow> nat \<Rightarrow> string \<Rightarrow> nat option" where
  "digits_acc after_digit n [] = (if after_digit then Some n else None)"
| "digits_acc after_digit n (c # cs) =
     (if is_digit c then digits_acc True (10 * n + digit_val c) cs
      else if c = CHR ''_'' \<and> after_digit then digits_acc False n cs
      else None)"

definition parse_nat :: "string \<Rightarrow> nat option" where
  "parse_nat s = (case s of [] \<Rightarrow> None
                  | c # cs \<Rightarrow> if is_digit c then digits_acc True (digit_val c) cs else None)"

definition py_int :: "string \<Rightarrow> int option" where
  "py_int s =
     (case py_strip s of
        [] \<Rightarrow> None
      | c # cs \<Rightarrow>
          if c = CHR ''+'' then map_option int (parse_nat cs)
          else if c = CHR ''-'' then map_option (\<lambda>n. - int n) (parse_nat cs)
          else map_option int (parse_nat (c # cs)))"

subsection \<open>The outside world\<close>

text \<open>
  The commands the script runs, one constructor per call site:
  \<^item> \<open>GhVersion\<close>: \<^verbatim>\<open>gh --version\<close>
  \<^item> \<open>GhAuthStatus\<close>: \<^verbatim>\<open>gh auth status\<close>
  \<^item> \<open>GhApiUserSilent\<close>: \<^verbatim>\<open>gh api user --silent\<close>
  \<^item> \<open>GhAuthRefresh\<close>: \<^verbatim>\<open>gh auth refresh -h github.com -s delete_repo\<close>
  \<^item> \<open>GhApiUserLogin\<close>: \<^verbatim>\<open>gh api user --jq .login\<close>
  \<^item> \<open>GhRepoList u\<close>: \<^verbatim>\<open>gh repo list u --limit 100 --json name --jq .[].name\<close>
  \<^item> \<open>GhRepoView t\<close>: \<^verbatim>\<open>gh repo view t\<close>
  \<^item> \<open>GhRepoDelete t\<close>: \<^verbatim>\<open>gh repo delete t --yes\<close>
\<close>

datatype gh_cmd =
    GhVersion | GhAuthStatus | GhApiUserSilent | GhAuthRefresh | GhApiUserLogin
  | GhRepoList string | GhRepoView string | GhRepoDelete string

text \<open>
  What \<^verbatim>\<open>subprocess.run\<close> meets: the program is not there (\<^verbatim>\<open>FileNotFoundError\<close>), or
  it ran and left a return code and its standard output.
\<close>

datatype proc = NotInstalled | Completed int string

text \<open>What \<^verbatim>\<open>input()\<close> meets: a line (without its line feed), Ctrl-C, or the end of input.\<close>

datatype input = Line string | KeyboardInterrupt | EOF

text \<open>
  The texts printed, one constructor per \<^verbatim>\<open>print\<close> or \<^verbatim>\<open>print_color\<close> call site,
  carrying the values the source interpolates; colours and pictograms are left out.
  They are grouped by the part of the script that prints them.
\<close>

datatype check_msg =
    M_gh_missing | M_install_first | M_install_windows | M_install_macos | M_install_linux
  | M_checking_auth | M_not_authenticated | M_run_login | M_checking_perms
  | M_perms_failed | M_run_refresh | M_auth_verified

datatype main_msg =
    M_banner | M_rule | M_no_username | M_using_username string
  | M_no_repos_specified | M_help

datatype select_msg =
    M_interactive_title | M_available | M_fetching | M_no_repos_found string
  | M_menu_item nat string | M_enter_numbers | M_or_all
  | M_skip_invalid string | M_none_selected

datatype load_msg =
    M_file_not_found string | M_file_error | M_loaded_file nat string
  | M_config_not_found string | M_config_loaded string | M_config_parse_failed | M_config_error

datatype delete_msg =
    M_would_delete string | M_deleting string | M_deleted string | M_delete_failed string

datatype batch_msg =
    M_starting | M_total nat | M_not_found string | M_no_valid
  | M_to_be_deleted | M_item string | M_irreversible | M_backups
  | M_confirm_prompt | M_op_cancelled | M_processing | M_progress nat nat

datatype summary_msg =
    M_summary | M_successful nat | M_failed nat | M_total_processed nat
  | M_check_log | M_completed

datatype msg =
    M_blank | M_cancelled_newline
  | Check check_msg | Main main_msg | Select select_msg | Load load_msg
  | Delete delete_msg | Batch batch_msg | Summary summary_msg

text \<open>The messages given to \<^verbatim>\<open>log\<close>; the time stamp is left out.\<close>

datatype logmsg =
    L_start | L_success string | L_failed string | L_summary nat nat nat

datatype event =
    Print msg | Log logmsg | Run gh_cmd proc | Input input | Sleep

text \<open>
  The configuration file, as \<^verbatim>\<open>load_config\<close> meets it: no such path, a file that cannot
  be read, a file that is not JSON, or a JSON object of the documented shape
  \<^verbatim>\<open>{"username": string?, "repositories": [string]?}\<close> (\<open>None\<close> for a key that is not
  there). The list file, as \<^verbatim>\<open>load_from_file\<close> meets it: no such path, a read error, or
  its lines.
\<close>

datatype config_file =
    ConfigMissing | ConfigUnreadable | ConfigMalformed
  | Config "string option" "string list option"

datatype list_file = ListMissing | ListUnreadable | ListLines "string list"

record env =
  gh :: "event list \<Rightarrow> gh_cmd \<Rightarrow> proc"
  config_at :: "string \<Rightarrow> config_file"
  list_at :: "string \<Rightarrow> list_file"

subsection \<open>The session\<close>

text \<open>
  The six fields of \<^verbatim>\<open>BatchDeleter\<close>, then the terminal input still to come and the
  trace of effects so far. The counters only ever go up from zero, so they are naturals.
\<close>

record state =
  username :: string
  repositories :: "string list"
  successful_deletions :: nat
  failed_deletions :: nat
  verbose :: bool
  dry_run :: bool
  stdin :: "input list"
  trace :: "event list"

datatype exn = FileNotFoundError | EOFError

datatype 'a res = Normal 'a | SysExit int | Uncaught exn

definition emit :: "event \<Rightarrow> state \<Rightarrow> state" where
  "emit ev s = s\<lparr>trace := trace s @ [ev]\<rparr>"

definition print_color :: "msg \<Rightarrow> state \<Rightarrow> state" where
  "print_color m s = emit (Print m) s"

definition log :: "logmsg \<Rightarrow> state \<Rightarrow> state" where
  "log m s = emit (Log m) s"

definition sleep :: "state \<Rightarrow> state" where
  "sleep s = emit Sleep s"

text \<open>
  \<^verbatim>\<open>subprocess.run(cmd, capture_output=True)\<close>: the world answers, knowing the trace so
  far, and the call is recorded with its answer.
\<close>

definition run :: "env \<Rightarrow> gh_cmd \<Rightarrow> state \<Rightarrow> proc \<times> state" where
  "run e cmd s = (let p = gh e (trace s) cmd in (p, emit (Run cmd p) s))"

text \<open>
  With \<^verbatim>\<open>check=True\<close> a return code other than zero raises
  \<^verbatim>\<open>CalledProcessError\<close>.
\<close>

datatype checked = Ran string | CalledProcessError | NotFound

definition run_checked :: "env \<Rightarrow> gh_cmd \<Rightarrow> state \<Rightarrow> checked \<times> state" where
  "run_checked e cmd s =
     (case run e cmd s of
        (NotInstalled, s1) \<Rightarrow> (NotFound, s1)
      | (Completed rc out, s1) \<Rightarrow> (if rc = 0 then (Ran out, s1) else (CalledProcessError, s1)))"

text \<open>\<^verbatim>\<open>input()\<close>: the next thing on the terminal; nothing left is the end of input.\<close>

definition read_input :: "state \<Rightarrow> input \<times> state" where
  "read_input s =
     (case stdin s of
        [] \<Rightarrow> (EOF, emit (Input EOF) s)
      | i # rest \<Rightarrow> (i, emit (Input i) (s\<lparr>stdin := rest\<rparr>)))"

definition target :: "string \<Rightarrow> string \<Rightarrow> string" where
  "target u repo = u @ ''/'' @ repo"

subsection \<open>Validation and deletion of one repository\<close>

definition validate_repository :: "env \<Rightarrow> state \<Rightarrow> string \<Rightarrow> bool res \<times> state" where
  "validate_repository e s repo =
     (case run_checked e (GhRepoView (target (username s) repo)) s of
        (Ran out, s1) \<Rightarrow> (Normal True, s1)
      | (CalledProcessError, s1) \<Rightarrow> (Normal False, s1)
      | (NotFound, s1) \<Rightarrow> (Uncaught FileNotFoundError, s1))"

definition delete_repository :: "env \<Rightarrow> state \<Rightarrow> string \<Rightarrow> bool res \<times> state" where
  "delete_repository e s repo =
     (let t = target (username s) repo in
      if dry_run s then (Normal True, print_color (Delete (M_would_delete t)) s)
      else
        let s1 = (if verbose s then print_color (Delete (M_deleting t)) s else s) in
        case run_checked e (GhRepoDelete t) s1 of
          (Ran out, s2) \<Rightarrow>
            (Normal True, log (L_success t) (print_color (Delete (M_deleted t)) s2))
        | (CalledProcessError, s2) \<Rightarrow>
            (Normal False, log (L_failed t) (print_color (Delete (M_delete_failed t)) s2))
        | (NotFound, s2) \<Rightarrow> (Uncaught FileNotFoundError, s2))"

subsection \<open>\<^verbatim>\<open>batch_delete\<close>\<close>

text \<open>Lines 240 to 246: the counters are reset and the header is printed.\<close>

definition batch_begin :: "state \<Rightarrow> state" where
  "batch_begin s =
     (let total = length (repositories s);
          s1 = s\<lparr>successful_deletions := 0, failed_deletions := 0\<rparr>
      in print_color M_blank
           (print_color (Batch (M_total total)) (print_color (Batch M_starting) s1)))"

text \<open>Lines 249 to 255: the validation loop, with \<^verbatim>\<open>valid_repos\<close> as accumulator.\<close>

fun validate_loop ::
  "env \<Rightarrow> state \<Rightarrow> string list \<Rightarrow> string list \<Rightarrow> string list res \<times> state" where
  "validate_loop e s valid_repos [] = (Normal valid_repos, s)"
| "validate_loop e s valid_repos (repo # rest) =
     (case validate_repository e s repo of
        (Normal ok, s1) \<Rightarrow>
          if ok then validate_loop e s1 (valid_repos @ [repo]) rest
          else validate_loop e
                 ((print_color (Batch (M_not_found (target (username s1) repo))) s1)
                    \<lparr>failed_deletions := failed_deletions s1 + 1\<rparr>)
                 valid_repos rest
      | (SysExit n, s1) \<Rightarrow> (SysExit n, s1)
      | (Uncaught x, s1) \<Rightarrow> (Uncaught x, s1))"

definition validation_pass :: "env \<Rightarrow> state \<Rightarrow> string list res \<times> state" where
  "validation_pass e s = validate_loop e s [] (repositories s)"

text \<open>Lines 262 to 280: the confirmation gate, entered when auto-confirm is not set.\<close>

definition print_items :: "string \<Rightarrow> string list \<Rightarrow> state \<Rightarrow> state" where
  "print_items u rs s = fold (\<lambda>repo. print_color (Batch (M_item (target u repo)))) rs s"

definition confirmation_gate :: "state \<Rightarrow> string list \<Rightarrow> unit res \<times> state" where
  "confirmation_gate s valid_repos =
     (let s1 = print_color M_blank
                 (print_items (username s) valid_repos (print_color (Batch M_to_be_deleted) s));
          s2 = (if \<not> dry_run s1
                then print_color M_blank
                       (print_color (Batch M_backups) (print_color (Batch M_irreversible) s1))
                else s1)
      in case read_input (print_color (Batch M_confirm_prompt) s2) of
           (Line confirmation, s3) \<Rightarrow>
             if confirmation \<noteq> ''DELETE''
             then (SysExit 0, print_color (Batch M_op_cancelled) s3)
             else (Normal (), s3)
         | (KeyboardInterrupt, s3) \<Rightarrow> (SysExit 0, print_color M_cancelled_newline s3)
         | (EOF, s3) \<Rightarrow> (Uncaught EOFError, s3))"

text \<open>
  Lines 286 to 295: the deletion loop; \<open>n\<close> is \<^verbatim>\<open>len(valid_repos)\<close> and \<open>i\<close> the
  counter of \<^verbatim>\<open>enumerate(valid_repos, 1)\<close>.
\<close>

fun delete_loop :: "env \<Rightarrow> state \<Rightarrow> nat \<Rightarrow> nat \<Rightarrow> string list \<Rightarrow> unit res \<times> state" where
  "delete_loop e s n i [] = (Normal (), s)"
| "delete_loop e s n i (repo # rest) =
     (case delete_repository e (print_color (Batch (M_progress i n)) s) repo of
        (Normal ok, s1) \<Rightarrow>
          delete_loop e
            (sleep (if ok then s1\<lparr>successful_deletions := successful_deletions s1 + 1\<rparr>
                    else s1\<lparr>failed_deletions := failed_deletions s1 + 1\<rparr>))
            n (i + 1) rest
      | (SysExit k, s1) \<Rightarrow> (SysExit k, s1)
      | (Uncaught x, s1) \<Rightarrow> (Uncaught x, s1))"

definition deletion_pass :: "env \<Rightarrow> state \<Rightarrow> string list \<Rightarrow> unit res \<times> state" where
  "deletion_pass e s valid_repos =
     delete_loop e (print_color (Batch M_processing) (print_color M_blank s))
       (length valid_repos) 1 valid_repos"

text \<open>Lines 297 to 311: the summary.\<close>

definition summary :: "state \<Rightarrow> state" where
  "summary s =
     (let s1 = print_color
                 (Summary (M_total_processed (successful_deletions s + failed_deletions s)))
                 (print_color (Summary (M_failed (failed_deletions s)))
                    (print_color (Summary (M_successful (successful_deletions s)))
                       (print_color (Summary M_summary) (print_color M_blank s))));
          s2 = (if \<not> dry_run s1
                then log (L_summary (successful_deletions s1 + failed_deletions s1)
                            (successful_deletions s1) (failed_deletions s1)) s1
                else s1);
          s3 = (if failed_deletions s2 > 0
                then print_color (Summary M_check_log) (print_color M_blank s2)
                else s2)
      in print_color (Summary M_completed) s3)"

definition batch_delete :: "env \<Rightarrow> state \<Rightarrow> bool \<Rightarrow> unit res \<times> state" where
  "batch_delete e s auto_confirm =
     (case validation_pass e (batch_begin s) of
        (Normal valid_repos, s1) \<Rightarrow>
          if valid_repos = [] then (SysExit 1, print_color (Batch M_no_valid) s1)
          else
            (case (if \<not> auto_confirm then confirmation_gate s1 valid_repos
                   else (Normal (), s1)) of
               (Normal u, s2) \<Rightarrow>
                 (case deletion_pass e s2 valid_repos of
                    (Normal u', s3) \<Rightarrow> (Normal (), summary s3)
                  | (SysExit k, s3) \<Rightarrow> (SysExit k, s3)
                  | (Uncaught x, s3) \<Rightarrow> (Uncaught x, s3))
             | (SysExit k, s2) \<Rightarrow> (SysExit k, s2)
             | (Uncaught x, s2) \<Rightarrow> (Uncaught x, s2))
      | (SysExit k, s1) \<Rightarrow> (SysExit k, s1)
      | (Uncaught x, s1) \<Rightarrow> (Uncaught x, s1))"

subsection \<open>Prerequisites and username\<close>

definition check_gh_cli :: "env \<Rightarrow> state \<Rightarrow> unit res \<times> state" where
  "check_gh_cli e s =
     (case run_checked e GhVersion s of
        (Ran out, s1) \<Rightarrow> (Normal (), s1)
      | (failed, s1) \<Rightarrow>
          (SysExit 1,
           print_color (Check M_install_linux) (print_color (Check M_install_macos)
             (print_color (Check M_install_windows) (print_color (Check M_install_first)
               (print_color (Check M_gh_missing) s1))))))"

definition check_auth :: "env \<Rightarrow> state \<Rightarrow> unit res \<times> state" where
  "check_auth e s =
     (case run_checked e GhAuthStatus (print_color (Check M_checking_auth) s) of
        (CalledProcessError, s1) \<Rightarrow>
          (SysExit 1, print_color (Check M_run_login) (print_color (Check M_not_authenticated) s1))
      | (NotFound, s1) \<Rightarrow> (Uncaught FileNotFoundError, s1)
      | (Ran out, s1) \<Rightarrow>
          (case run_checked e GhApiUserSilent s1 of
             (Ran out2, s2) \<Rightarrow> (Normal (), print_color (Check M_auth_verified) s2)
           | (NotFound, s2) \<Rightarrow> (Uncaught FileNotFoundError, s2)
           | (CalledProcessError, s2) \<Rightarrow>
               (case run_checked e GhAuthRefresh (print_color (Check M_checking_perms) s2) of
                  (Ran out3, s3) \<Rightarrow> (Normal (), print_color (Check M_auth_verified) s3)
                | (NotFound, s3) \<Rightarrow> (Uncaught FileNotFoundError, s3)
                | (CalledProcessError, s3) \<Rightarrow>
                    (SysExit 1,
                     print_color (Check M_run_refresh) (print_color (Check M_perms_failed) s3)))))"

definition get_username :: "env \<Rightarrow> state \<Rightarrow> unit res \<times> state" where
  "get_username e s =
     (if username s = [] then
        (case run e GhApiUserLogin s of
           (NotInstalled, s1) \<Rightarrow> (Uncaught FileNotFoundError, s1)
         | (Completed rc out, s1) \<Rightarrow>
             (let s2 = (if rc = 0 then s1\<lparr>username := py_strip out\<rparr>
                        else print_color (Main M_no_username) s1)
              in (Normal (), print_color (Main (M_using_username (username s2))) s2)))
      else (Normal (), print_color (Main (M_using_username (username s))) s))"

subsection \<open>The interactive picker\<close>

definition list_repositories :: "env \<Rightarrow> state \<Rightarrow> string list res \<times> state" where
  "list_repositories e s =
     (case run_checked e (GhRepoList (username s)) (print_color (Select M_fetching) s) of
        (Ran out, s1) \<Rightarrow>
          (Normal (map py_strip (filter (\<lambda>repo. py_strip repo \<noteq> []) (py_split_lines out))), s1)
      | (CalledProcessError, s1) \<Rightarrow> (Normal [], s1)
      | (NotFound, s1) \<Rightarrow> (Uncaught FileNotFoundError, s1))"

text \<open>The menu of lines 131 and 132, numbered from \<open>i\<close>.\<close>

fun print_menu :: "nat \<Rightarrow> string list \<Rightarrow> state \<Rightarrow> state" where
  "print_menu i [] s = s"
| "print_menu i (repo # rest) s =
     print_menu (i + 1) rest (print_color (Select (M_menu_item i repo)) s)"

text \<open>
  Lines 147 to 156: the loop over the tokens of the answer, with \<^verbatim>\<open>selected\<close> as
  accumulator. \<open>repos ! (nat num - 1)\<close> is read only under the guard of line 151.
\<close>

fun select_loop ::
  "string list \<Rightarrow> state \<Rightarrow> string list \<Rightarrow> string list \<Rightarrow> string list \<times> state" where
  "select_loop repos s selected [] = (selected, s)"
| "select_loop repos s selected (num_str # rest) =
     (case py_int num_str of
        Some num \<Rightarrow>
          if 1 \<le> num \<and> num \<le> int (length repos)
          then select_loop repos s (selected @ [repos ! (nat num - 1)]) rest
          else select_loop repos (print_color (Select (M_skip_invalid num_str)) s) selected rest
      | None \<Rightarrow>
          select_loop repos (print_color (Select (M_skip_invalid num_str)) s) selected rest)"

text \<open>Lines 126 to 161: what the picker does with the list it fetched.\<close>

definition select_from :: "string list \<Rightarrow> state \<Rightarrow> unit res \<times> state" where
  "select_from repos s =
     (if repos = [] then (SysExit 0, print_color (Select (M_no_repos_found (username s))) s)
      else
        (case read_input
                (print_color (Select M_or_all) (print_color (Select M_enter_numbers)
                   (print_color M_blank (print_menu 1 repos (print_color M_blank s))))) of
           (KeyboardInterrupt, s1) \<Rightarrow> (SysExit 0, print_color M_cancelled_newline s1)
         | (EOF, s1) \<Rightarrow> (Uncaught EOFError, s1)
         | (Line answer, s1) \<Rightarrow>
             (let selection = py_strip answer;
                  s2 = (if py_lower selection = ''all'' then s1\<lparr>repositories := repos\<rparr>
                        else (case select_loop repos s1 [] (py_split selection) of
                                (selected, s') \<Rightarrow> s'\<lparr>repositories := selected\<rparr>))
              in if repositories s2 = []
                 then (SysExit 0, print_color (Select M_none_selected) s2)
                 else (Normal (), s2))))"

text \<open>Lines 121 and 122, then the listing, then the rest.\<close>

definition picker_header :: "state \<Rightarrow> state" where
  "picker_header s = print_color (Select M_available) (print_color (Select M_interactive_title) s)"

definition interactive_selection :: "env \<Rightarrow> state \<Rightarrow> unit res \<times> state" where
  "interactive_selection e s =
     (case list_repositories e (picker_header s) of
        (Normal repos, s1) \<Rightarrow> select_from repos s1
      | (SysExit k, s1) \<Rightarrow> (SysExit k, s1)
      | (Uncaught x, s1) \<Rightarrow> (Uncaught x, s1))"

subsection \<open>Loading the list file and the configuration file\<close>

definition load_from_file :: "env \<Rightarrow> state \<Rightarrow> string \<Rightarrow> unit res \<times> state" where
  "load_from_file e s file_path =
     (case list_at e file_path of
        ListMissing \<Rightarrow> (SysExit 1, print_color (Load (M_file_not_found file_path)) s)
      | ListUnreadable \<Rightarrow> (SysExit 1, print_color (Load M_file_error) s)
      | ListLines ls \<Rightarrow>
          (let repos = filter (\<lambda>line. line \<noteq> [] \<and> \<not> startswith_hash line) (map py_strip ls)
           in (Normal (),
               print_color (Load (M_loaded_file (length repos) file_path))
                 (s\<lparr>repositories := repos\<rparr>))))"

definition load_config :: "env \<Rightarrow> state \<Rightarrow> string \<Rightarrow> unit res \<times> state" where
  "load_config e s config_path =
     (case config_at e config_path of
        ConfigMissing \<Rightarrow> (SysExit 1, print_color (Load (M_config_not_found config_path)) s)
      | ConfigMalformed \<Rightarrow> (SysExit 1, print_color (Load M_config_parse_failed) s)
      | ConfigUnreadable \<Rightarrow> (SysExit 1, print_color (Load M_config_error) s)
      | Config cfg_username cfg_repositories \<Rightarrow>
          (let s1 = (case cfg_username of
                       Some u \<Rightarrow> if u \<noteq> [] then s\<lparr>username := u\<rparr> else s
                     | None \<Rightarrow> s);
               s2 = (case cfg_repositories of
                       Some rs \<Rightarrow> if rs \<noteq> [] then s1\<lparr>repositories := rs\<rparr> else s1
                     | None \<Rightarrow> s1)
           in (Normal (), print_color (Load (M_config_loaded config_path)) s2)))"

subsection \<open>\<^verbatim>\<open>main\<close>\<close>

text \<open>The parsed command line; an option that was not given is \<open>None\<close>.\<close>

record args =
  arg_repositories :: "string list"
  arg_username :: "string option"
  arg_file :: "string option"
  arg_config :: "string option"
  arg_auto_confirm :: bool
  arg_verbose :: bool
  arg_dry_run :: bool
  arg_interactive :: bool

text \<open>Python's truth of an optional string: given and not empty.\<close>

definition given :: "string option \<Rightarrow> bool" where
  "given a = (case a of None \<Rightarrow> False | Some v \<Rightarrow> v \<noteq> [])"

text \<open>Lines 346 to 357: the new session, the banner and the first log line.\<close>

definition main_init :: "args \<Rightarrow> input list \<Rightarrow> state" where
  "main_init a inp =
     (let deleter = \<lparr>username = (if given (arg_username a) then the (arg_username a) else []),
                      repositories = [], successful_deletions = 0, failed_deletions = 0,
                      verbose = arg_verbose a, dry_run = arg_dry_run a,
                      stdin = inp, trace = []\<rparr>
      in log L_start (print_color (Main M_rule) (print_color (Main M_banner) deleter)))"

text \<open>Lines 360 to 362.\<close>

definition main_checks :: "env \<Rightarrow> state \<Rightarrow> unit res \<times> state" where
  "main_checks e s =
     (case check_gh_cli e s of
        (Normal u, s1) \<Rightarrow>
          (case check_auth e s1 of
             (Normal u', s2) \<Rightarrow> get_username e s2
           | (SysExit k, s2) \<Rightarrow> (SysExit k, s2)
           | (Uncaught x, s2) \<Rightarrow> (Uncaught x, s2))
      | (SysExit k, s1) \<Rightarrow> (SysExit k, s1)
      | (Uncaught x, s1) \<Rightarrow> (Uncaught x, s1))"

text \<open>Lines 365 to 377: configuration file, list file, positional arguments, picker.\<close>

definition main_inputs :: "env \<Rightarrow> args \<Rightarrow> state \<Rightarrow> unit res \<times> state" where
  "main_inputs e a s =
     (case (if given (arg_config a) then load_config e s (the (arg_config a))
            else (Normal (), s)) of
        (SysExit k, s1) \<Rightarrow> (SysExit k, s1)
      | (Uncaught x, s1) \<Rightarrow> (Uncaught x, s1)
      | (Normal u, s1) \<Rightarrow>
          (case (if given (arg_file a) then load_from_file e s1 (the (arg_file a))
                 else (Normal (), s1)) of
             (SysExit k, s2) \<Rightarrow> (SysExit k, s2)
           | (Uncaught x, s2) \<Rightarrow> (Uncaught x, s2)
           | (Normal u', s2) \<Rightarrow>
               (let s3 = (if arg_repositories a \<noteq> []
                          then s2\<lparr>repositories := repositories s2 @ arg_repositories a\<rparr>
                          else s2)
                in if arg_interactive a \<or> repositories s3 = []
                   then interactive_selection e s3
                   else (Normal (), s3))))"

text \<open>Lines 346 to 377: everything \<^verbatim>\<open>main\<close> does before it looks at the list at line 380.\<close>

definition main_resolve :: "env \<Rightarrow> args \<Rightarrow> input list \<Rightarrow> unit res \<times> state" where
  "main_resolve e a inp =
     (case main_checks e (main_init a inp) of
        (Normal u, s1) \<Rightarrow> main_inputs e a s1
      | (SysExit k, s1) \<Rightarrow> (SysExit k, s1)
      | (Uncaught x, s1) \<Rightarrow> (Uncaught x, s1))"

definition main :: "env \<Rightarrow> args \<Rightarrow> input list \<Rightarrow> unit res \<times> state" where
  "main e a inp =
     (case main_resolve e a inp of
        (Normal u, s) \<Rightarrow>
          if repositories s = []
          then (SysExit 0, print_color (Main M_help) (print_color (Main M_no_repos_specified) s))
          else batch_delete e s (arg_auto_confirm a)
      | (SysExit k, s) \<Rightarrow> (SysExit k, s)
      | (Uncaught x, s) \<Rightarrow> (Uncaught x, s))"

subsection \<open>Reading the trace\<close>

text \<open>
  What a run did is read off its trace: \<open>observe f tr\<close> collects, in order, what \<open>f\<close>
  sees in each event.
\<close>

definition observe :: "(event \<Rightarrow> 'a list) \<Rightarrow> event list \<Rightarrow> 'a list" where
  "observe f tr = concat (map f tr)"

text \<open>The answers of \<^verbatim>\<open>gh repo view\<close>: the target, and whether the return code was zero.\<close>

fun view_of :: "event \<Rightarrow> (string \<times> bool) list" where
  "view_of (Run (GhRepoView t) (Completed rc out)) = [(t, rc = 0)]"
| "view_of ev = []"

definition view_results :: "event list \<Rightarrow> (string \<times> bool) list" where
  "view_results tr = observe view_of tr"

text \<open>
  The calls of \<^verbatim>\<open>delete_repository\<close>: each one either prints the dry-run notice or runs
  \<^verbatim>\<open>gh repo delete\<close>, on its target.
\<close>

fun delete_call_of :: "event \<Rightarrow> string list" where
  "delete_call_of (Run (GhRepoDelete t) p) = [t]"
| "delete_call_of (Print (Delete (M_would_delete t))) = [t]"
| "delete_call_of ev = []"

definition delete_calls :: "event list \<Rightarrow> string list" where
  "delete_calls tr = observe delete_call_of tr"

text \<open>What \<^verbatim>\<open>delete_repository\<close> returned, call by call.\<close>

fun delete_result_of :: "event \<Rightarrow> bool list" where
  "delete_result_of (Run (GhRepoDelete t) (Completed rc out)) = [rc = 0]"
| "delete_result_of (Print (Delete (M_would_delete t))) = [True]"
| "delete_result_of ev = []"

definition delete_results :: "event list \<Rightarrow> bool list" where
  "delete_results tr = observe delete_result_of tr"

text \<open>The live \<^verbatim>\<open>gh repo delete\<close> commands, the log lines, the reads from the terminal.\<close>

fun gh_delete_of :: "event \<Rightarrow> string list" where
  "gh_delete_of (Run (GhRepoDelete t) p) = [t]"
| "gh_delete_of ev = []"

definition gh_deletes :: "event list \<Rightarrow> string list" where
  "gh_deletes tr = observe gh_delete_of tr"

fun log_of :: "event \<Rightarrow> logmsg list" where
  "log_of (Log m) = [m]"
| "log_of ev = []"

definition logs :: "event list \<Rightarrow> logmsg list" where
  "logs tr = observe log_of tr"

fun input_of :: "event \<Rightarrow> input list" where
  "input_of (Input i) = [i]"
| "input_of ev = []"

definition inputs :: "event list \<Rightarrow> input list" where
  "inputs tr = observe input_of tr"

text \<open>The confirmation prompts shown.\<close>

fun prompt_of :: "event \<Rightarrow> batch_msg list" where
  "prompt_of (Print (Batch M_confirm_prompt)) = [M_confirm_prompt]"
| "prompt_of ev = []"

definition prompts :: "event list \<Rightarrow> batch_msg list" where
  "prompts tr = observe prompt_of tr"

text \<open>The numbers printed as \<^verbatim>\<open>Total processed\<close>.\<close>

fun total_of :: "event \<Rightarrow> nat list" where
  "total_of (Print (Summary (M_total_processed n))) = [n]"
| "total_of ev = []"

definition totals_printed :: "event list \<Rightarrow> nat list" where
  "totals_printed tr = observe total_of tr"

text \<open>The warnings of the picker: the tokens it reported as skipped.\<close>

fun skip_of :: "event \<Rightarrow> string list" where
  "skip_of (Print (Select (M_skip_invalid tok))) = [tok]"
| "skip_of ev = []"

definition warnings :: "event list \<Rightarrow> string list" where
  "warnings tr = observe skip_of tr"

subsection \<open>The picker's selection, in the words of the specification\<close>

text \<open>
  A token is an in-range index for \<open>n\<close> listed repositories when it reads as an integer
  between 1 and \<open>n\<close>. The selection is the repositories at the in-range indices, in token
  order; the other tokens are skipped.
\<close>

definition in_range :: "nat \<Rightarrow> string \<Rightarrow> bool" where
  "in_range n tok = (case py_int tok of None \<Rightarrow> False | Some num \<Rightarrow> 1 \<le> num \<and> num \<le> int n)"

definition picked :: "string list \<Rightarrow> string list \<Rightarrow> string list" where
  "picked repos toks =
     map (\<lambda>tok. repos ! (nat (the (py_int tok)) - 1)) (filter (in_range (length repos)) toks)"

definition skipped :: "nat \<Rightarrow> string list \<Rightarrow> string list" where
  "skipped n toks = filter (\<lambda>tok. \<not> in_range n tok) toks"

subsection \<open>A small world for concrete runs\<close>

text \<open>
  A \<^verbatim>\<open>gh\<close> that is installed and authenticated as \<^verbatim>\<open>alice\<close>, who owns \<^verbatim>\<open>web\<close>,
  \<^verbatim>\<open>api\<close>, \<^verbatim>\<open>old\<close>, \<^verbatim>\<open>docs\<close> and \<^verbatim>\<open>blog\<close> but not \<^verbatim>\<open>gone\<close>; deleting
  \<^verbatim>\<open>old\<close> is refused. One configuration file that names repositories only, one that
  names a user as well, and one that names a user only.
\<close>

definition w_gh :: "event list \<Rightarrow> gh_cmd \<Rightarrow> proc" where
  "w_gh tr cmd =
     (if cmd = GhApiUserLogin then Completed 0 ''alice\<newline>''
      else if cmd = GhRepoList ''alice''
      then Completed 0 ''web\<newline>api\<newline>old\<newline>docs\<newline>blog\<newline>''
      else if cmd = GhRepoView ''alice/gone'' then Completed 1 []
      else if cmd = GhRepoDelete ''alice/old'' then Completed 1 []
      else Completed 0 [])"

definition w_env :: env where
  "w_env = \<lparr>gh = w_gh,
            config_at = (\<lambda>p. if p = ''repos.json'' then Config None (Some [''web'', ''api''])
                             else if p = ''team.json'' then Config (Some ''bob'') (Some [''web''])
                             else if p = ''user.json'' then Config (Some ''bob'') None
                             else ConfigMissing),
            list_at = (\<lambda>p. ListMissing)\<rparr>"

definition w_state :: state where
  "w_state = \<lparr>username = ''alice'', repositories = [''web'', ''gone'', ''old'', ''web''],
              successful_deletions = 0, failed_deletions = 0, verbose = False,
              dry_run = False, stdin = [], trace = []\<rparr>"

text \<open>The same session with another list, mode and terminal input.\<close>

definition w_with :: "string list \<Rightarrow> bool \<Rightarrow> input list \<Rightarrow> state" where
  "w_with rs dry inp = w_state\<lparr>repositories := rs, dry_run := dry, stdin := inp\<rparr>"

text \<open>A command line with nothing on it but \<^verbatim>\<open>--auto-confirm\<close>.\<close>

definition w_args :: args where
  "w_args = \<lparr>arg_repositories = [], arg_username = None, arg_file = None, arg_config = None,
             arg_auto_confirm = True, arg_verbose = False, arg_dry_run = False,
             arg_interactive = False\<rparr>"

section \<open>Basic facts\<close>

lemma emit_fields [simp]:
  "username (emit ev s) = username s"
  "repositories (emit ev s) = repositories s"
  "successful_deletions (emit ev s) = successful_deletions s"
  "failed_deletions (emit ev s) = failed_deletions s"
  "verbose (emit ev s) = verbose s"
  "dry_run (emit ev s) = dry_run s"
  "stdin (emit ev s) = stdin s"
  "trace (emit ev s) = trace s @ [ev]"
  by (simp_all add: emit_def)

declare print_color_def [simp] log_def [simp] sleep_def [simp]

lemma observe_simps [simp]:
  "observe f [] = []"
  "observe f (ev # tr) = f ev @ observe f tr"
  "observe f (tr @ tr') = observe f tr @ observe f tr'"
  by (simp_all add: observe_def)

section \<open>The configuration file\<close>

text \<open>
  C7. Loading a configuration object returns normally; when its \<^verbatim>\<open>username\<close> is absent
  or empty, the username resolved before is kept, whatever the \<^verbatim>\<open>repositories\<close> field
  holds, and when its \<^verbatim>\<open>repositories\<close> is absent or empty, the repository list resolved
  before is kept.
\<close>

theorem load_config_frame:
  assumes "config_at e config_path = Config cfg_username cfg_repositories"
  shows "fst (load_config e s config_path) = Normal ()
       \<and> (cfg_username = None \<or> cfg_username = Some []
            \<longrightarrow> username (snd (load_config e s config_path)) = username s)
       \<and> (cfg_repositories = None \<or> cfg_repositories = Some []
            \<longrightarrow> repositories (snd (load_config e s config_path)) = repositories s)"
  using assms by (auto simp: load_config_def split: option.splits)

theorem load_config_frame_witness:
  "config_at w_env ''repos.json'' = Config None (Some [''web'', ''api''])
   \<and> fst (load_config w_env w_state ''repos.json'') = Normal ()
   \<and> username (snd (load_config w_env w_state ''repos.json'')) = ''alice''
   \<and> repositories (snd (load_config w_env w_state ''repos.json'')) = [''web'', ''api'']
   \<and> config_at w_env ''user.json'' = Config (Some ''bob'') None
   \<and> username (snd (load_config w_env w_state ''user.json'')) = ''bob''
   \<and> repositories (snd (load_config w_env w_state ''user.json''))
       = [''web'', ''gone'', ''old'', ''web'']"
proof -
  have c: "config_at w_env ''repos.json'' = Config None (Some [''web'', ''api''])"
    and c': "config_at w_env ''user.json'' = Config (Some ''bob'') None"
    by (simp_all add: w_env_def)
  have r: "repositories (snd (load_config w_env w_state ''repos.json'')) = [''web'', ''api'']"
    and u: "username (snd (load_config w_env w_state ''user.json'')) = ''bob''"
    by (simp_all add: load_config_def c c')
  show ?thesis
    using load_config_frame [OF c, of w_state] load_config_frame [OF c', of w_state] c c' r u
    by (simp add: w_state_def)
qed

section \<open>The phases of the batch\<close>

subsection \<open>Validation\<close>

lemma validate_repository_fields:
  assumes "validate_repository e s repo = (r, s')"
  shows "username s' = username s" "repositories s' = repositories s"
    "successful_deletions s' = successful_deletions s"
    "failed_deletions s' = failed_deletions s"
    "verbose s' = verbose s" "dry_run s' = dry_run s" "stdin s' = stdin s"
  using assms
  by (auto simp: validate_repository_def run_checked_def run_def Let_def
           split: proc.splits if_splits)

lemma validate_repository_trace:
  assumes "validate_repository e s repo = (r, s')"
  shows "\<exists>p. trace s' = trace s @ [Run (GhRepoView (target (username s) repo)) p]
           \<and> (case p of NotInstalled \<Rightarrow> r = Uncaught FileNotFoundError
                        | Completed rc out \<Rightarrow> r = Normal (rc = 0))"
  using assms
  by (auto simp: validate_repository_def run_checked_def run_def Let_def
           split: proc.splits if_splits)

lemma validate_loop_fields:
  "validate_loop e s acc rs = (r, s') \<Longrightarrow>
     username s' = username s \<and> repositories s' = repositories s
     \<and> successful_deletions s' = successful_deletions s
     \<and> verbose s' = verbose s \<and> dry_run s' = dry_run s \<and> stdin s' = stdin s"
proof (induction rs arbitrary: s acc)
  case Nil
  then show ?case by simp
next
  case (Cons repo rest)
  obtain r1 s1 where v: "validate_repository e s repo = (r1, s1)"
    by (cases "validate_repository e s repo")
  note f = validate_repository_fields [OF v]
  show ?case
  proof (cases r1)
    case (Normal ok)
    show ?thesis
    proof (cases ok)
      case True
      with Cons.prems v Normal have "validate_loop e s1 (acc @ [repo]) rest = (r, s')" by simp
      from Cons.IH [OF this] f show ?thesis by simp
    next
      case False
      with Cons.prems v Normal have
        "validate_loop e ((print_color (Batch (M_not_found (target (username s1) repo))) s1)
            \<lparr>failed_deletions := failed_deletions s1 + 1\<rparr>) acc rest = (r, s')" by simp
      from Cons.IH [OF this] f show ?thesis by simp
    qed
  next
    case (SysExit k)
    with Cons.prems v f show ?thesis by auto
  next
    case (Uncaught x)
    with Cons.prems v f show ?thesis by auto
  qed
qed

lemma validate_loop_silent:
  assumes sil: "\<And>t p. f (Run (GhRepoView t) p) = []" "\<And>t. f (Print (Batch (M_not_found t))) = []"
  shows "validate_loop e s acc rs = (r, s') \<Longrightarrow> observe f (trace s') = observe f (trace s)"
proof (induction rs arbitrary: s acc)
  case Nil
  then show ?case by simp
next
  case (Cons repo rest)
  obtain r1 s1 where v: "validate_repository e s repo = (r1, s1)"
    by (cases "validate_repository e s repo")
  from validate_repository_trace [OF v] sil
  have t: "observe f (trace s1) = observe f (trace s)" by auto
  show ?case
  proof (cases r1)
    case (Normal ok)
    show ?thesis
    proof (cases ok)
      case True
      with Cons.prems v Normal have "validate_loop e s1 (acc @ [repo]) rest = (r, s')" by simp
      from Cons.IH [OF this] t show ?thesis by simp
    next
      case False
      with Cons.prems v Normal have
        "validate_loop e ((print_color (Batch (M_not_found (target (username s1) repo))) s1)
            \<lparr>failed_deletions := failed_deletions s1 + 1\<rparr>) acc rest = (r, s')" by simp
      from Cons.IH [OF this] t sil show ?thesis by simp
    qed
  next
    case (SysExit k)
    with Cons.prems v t show ?thesis by auto
  next
    case (Uncaught x)
    with Cons.prems v t show ?thesis by auto
  qed
qed

text \<open>The verdicts: one per candidate reached, and the survivors are those answered yes.\<close>

lemma validate_loop_views:
  "validate_loop e s acc rs = (r, s') \<Longrightarrow>
     \<exists>vs. view_results (trace s') = view_results (trace s) @ vs
        \<and> length vs \<le> length rs
        \<and> map fst vs = map (target (username s)) (take (length vs) rs)
        \<and> (\<forall>valid. r = Normal valid \<longrightarrow>
              length vs = length rs
              \<and> valid = acc @ map fst (filter (snd \<circ> snd) (zip rs vs))
              \<and> failed_deletions s' = failed_deletions s + length (filter (Not \<circ> snd) vs))"
proof (induction rs arbitrary: s acc)
  case Nil
  then show ?case by auto
next
  case (Cons repo rest)
  obtain r1 s1 where v: "validate_repository e s repo = (r1, s1)"
    by (cases "validate_repository e s repo")
  note f = validate_repository_fields [OF v]
  from validate_repository_trace [OF v] obtain p where
    tr: "trace s1 = trace s @ [Run (GhRepoView (target (username s) repo)) p]" and
    res: "case p of NotInstalled \<Rightarrow> r1 = Uncaught FileNotFoundError
                  | Completed rc out \<Rightarrow> r1 = Normal (rc = 0)"
    by blast
  show ?case
  proof (cases p)
    case NotInstalled
    with res Cons.prems v tr have "r = Uncaught FileNotFoundError" "s' = s1" by auto
    with tr NotInstalled show ?thesis
      by (intro exI [of _ "[]"]) (simp add: view_results_def)
  next
    case (Completed rc out)
    with res have r1: "r1 = Normal (rc = 0)" by simp
    have tv: "view_results (trace s1)
              = view_results (trace s) @ [(target (username s) repo, rc = 0)]"
      using tr Completed by (simp add: view_results_def)
    show ?thesis
    proof (cases "rc = 0")
      case True
      with Cons.prems v r1 have "validate_loop e s1 (acc @ [repo]) rest = (r, s')" by simp
      from Cons.IH [OF this] obtain vs where
        a: "view_results (trace s') = view_results (trace s1) @ vs" and
        b: "length vs \<le> length rest" and
        c: "map fst vs = map (target (username s1)) (take (length vs) rest)" and
        d: "\<forall>valid. r = Normal valid \<longrightarrow> length vs = length rest
              \<and> valid = (acc @ [repo]) @ map fst (filter (snd \<circ> snd) (zip rest vs))
              \<and> failed_deletions s' = failed_deletions s1 + length (filter (Not \<circ> snd) vs)"
        by blast
      show ?thesis
        using a b c d tv f True unfolding comp_def
        by (intro exI [of _ "(target (username s) repo, True) # vs"]) simp
    next
      case False
      define s1' where "s1' = (print_color (Batch (M_not_found (target (username s1) repo))) s1)
            \<lparr>failed_deletions := failed_deletions s1 + 1\<rparr>"
      have m: "username s1' = username s1" "failed_deletions s1' = failed_deletions s1 + 1"
        "view_results (trace s1') = view_results (trace s1)"
        by (simp_all add: s1'_def view_results_def)
      from False Cons.prems v r1 have "validate_loop e s1' acc rest = (r, s')"
        by (simp add: s1'_def)
      from Cons.IH [OF this] obtain vs where
        a: "view_results (trace s') = view_results (trace s1') @ vs" and
        b: "length vs \<le> length rest" and
        c: "map fst vs = map (target (username s1')) (take (length vs) rest)" and
        d: "\<forall>valid. r = Normal valid \<longrightarrow> length vs = length rest
              \<and> valid = acc @ map fst (filter (snd \<circ> snd) (zip rest vs))
              \<and> failed_deletions s' = failed_deletions s1' + length (filter (Not \<circ> snd) vs)"
        by blast
      show ?thesis
        using a b c d tv f m False unfolding comp_def
        by (intro exI [of _ "(target (username s) repo, False) # vs"]) simp
    qed
  qed
qed

subsection \<open>Deletion\<close>

lemma delete_repository_fields:
  assumes "delete_repository e s repo = (r, s')"
  shows "username s' = username s" "repositories s' = repositories s"
    "successful_deletions s' = successful_deletions s"
    "failed_deletions s' = failed_deletions s"
    "verbose s' = verbose s" "dry_run s' = dry_run s" "stdin s' = stdin s"
  using assms
  by (auto simp: delete_repository_def run_checked_def run_def Let_def
           split: proc.splits if_splits)

lemma delete_repository_silent:
  assumes "\<And>m. f (Print (Delete m)) = []" "\<And>t p. f (Run (GhRepoDelete t) p) = []"
    "\<And>m. f (Log m) = []"
  shows "delete_repository e s repo = (r, s') \<Longrightarrow> observe f (trace s') = observe f (trace s)"
  using assms
  by (auto simp: delete_repository_def run_checked_def run_def Let_def
           split: proc.splits if_splits)

lemma delete_repository_calls:
  assumes "delete_repository e s repo = (r, s')"
  shows "delete_calls (trace s') = delete_calls (trace s) @ [target (username s) repo]"
    and "delete_results (trace s')
         = delete_results (trace s) @ (case r of Normal ok \<Rightarrow> [ok] | _ \<Rightarrow> [])"
  using assms
  by (auto simp: delete_repository_def run_checked_def run_def Let_def
                 delete_calls_def delete_results_def
           split: proc.splits if_splits)

lemma delete_repository_dry:
  assumes "dry_run s"
  shows "delete_repository e s repo
         = (Normal True, print_color (Delete (M_would_delete (target (username s) repo))) s)"
  using assms by (simp add: delete_repository_def)

lemma delete_loop_fields:
  "delete_loop e s n i rs = (r, s') \<Longrightarrow>
     username s' = username s \<and> repositories s' = repositories s
     \<and> verbose s' = verbose s \<and> dry_run s' = dry_run s \<and> stdin s' = stdin s"
proof (induction rs arbitrary: s i)
  case Nil
  then show ?case by simp
next
  case (Cons repo rest)
  obtain r1 s1 where d: "delete_repository e (print_color (Batch (M_progress i n)) s) repo = (r1, s1)"
    by (cases "delete_repository e (print_color (Batch (M_progress i n)) s) repo")
  note f = delete_repository_fields [OF d]
  show ?case
  proof (cases r1)
    case (Normal ok)
    with Cons.prems d have
      "delete_loop e
         (sleep (if ok then s1\<lparr>successful_deletions := successful_deletions s1 + 1\<rparr>
                 else s1\<lparr>failed_deletions := failed_deletions s1 + 1\<rparr>))
         n (i + 1) rest = (r, s')" by simp
    from Cons.IH [OF this] f show ?thesis by (cases ok) simp_all
  next
    case (SysExit k)
    with Cons.prems d f show ?thesis by auto
  next
    case (Uncaught x)
    with Cons.prems d f show ?thesis by auto
  qed
qed

lemma delete_loop_silent:
  assumes sil: "\<And>m. f (Print (Delete m)) = []" "\<And>t p. f (Run (GhRepoDelete t) p) = []"
    "\<And>m. f (Log m) = []" "\<And>m. f (Print (Batch m)) = []" "f Sleep = []"
  shows "delete_loop e s n i rs = (r, s') \<Longrightarrow> observe f (trace s') = observe f (trace s)"
proof (induction rs arbitrary: s i)
  case Nil
  then show ?case by simp
next
  case (Cons repo rest)
  obtain r1 s1 where d: "delete_repository e (print_color (Batch (M_progress i n)) s) repo = (r1, s1)"
    by (cases "delete_repository e (print_color (Batch (M_progress i n)) s) repo")
  from delete_repository_silent [OF sil(1,2,3) d] sil
  have t: "observe f (trace s1) = observe f (trace s)" by simp
  show ?case
  proof (cases r1)
    case (Normal ok)
    with Cons.prems d have
      "delete_loop e
         (sleep (if ok then s1\<lparr>successful_deletions := successful_deletions s1 + 1\<rparr>
                 else s1\<lparr>failed_deletions := failed_deletions s1 + 1\<rparr>))
         n (i + 1) rest = (r, s')" by simp
    from Cons.IH [OF this] t sil show ?thesis by (cases ok) simp_all
  next
    case (SysExit k)
    with Cons.prems d t show ?thesis by auto
  next
    case (Uncaught x)
    with Cons.prems d t show ?thesis by auto
  qed
qed

text \<open>In a dry run the loop cannot fail, runs nothing and logs nothing.\<close>

lemma delete_loop_dry:
  "dry_run s \<Longrightarrow> delete_loop e s n i rs = (r, s') \<Longrightarrow>
     r = Normal () \<and> gh_deletes (trace s') = gh_deletes (trace s)
     \<and> logs (trace s') = logs (trace s)
     \<and> successful_deletions s' = successful_deletions s + length rs
     \<and> failed_deletions s' = failed_deletions s"
proof (induction rs arbitrary: s i)
  case Nil
  then show ?case by simp
next
  case (Cons repo rest)
  let ?s0 = "print_color (Batch (M_progress i n)) s"
  let ?s1 = "print_color (Delete (M_would_delete (target (username s) repo))) ?s0"
  let ?s2 = "sleep (?s1\<lparr>successful_deletions := successful_deletions ?s1 + 1\<rparr>)"
  have d: "delete_repository e ?s0 repo = (Normal True, ?s1)"
    using Cons.prems(1) delete_repository_dry [of ?s0 e repo] by simp
  have "delete_loop e ?s2 n (i + 1) rest = (r, s')"
    using Cons.prems(2) d by simp
  moreover have "dry_run ?s2" using Cons.prems(1) by simp
  ultimately have "r = Normal () \<and> gh_deletes (trace s') = gh_deletes (trace ?s2)
     \<and> logs (trace s') = logs (trace ?s2)
     \<and> successful_deletions s' = successful_deletions ?s2 + length rest
     \<and> failed_deletions s' = failed_deletions ?s2"
    using Cons.IH by blast
  then show ?case by (simp add: gh_deletes_def logs_def)
qed

text \<open>
  The calls made are on a prefix of the list, all of it when the loop ends normally, and
  the counters move by what the calls returned.
\<close>

lemma delete_loop_calls:
  "delete_loop e s n i rs = (r, s') \<Longrightarrow>
     \<exists>k ds. k \<le> length rs
        \<and> delete_calls (trace s') = delete_calls (trace s) @ map (target (username s)) (take k rs)
        \<and> delete_results (trace s') = delete_results (trace s) @ ds
        \<and> successful_deletions s' = successful_deletions s + length (filter (\<lambda>ok. ok) ds)
        \<and> failed_deletions s' = failed_deletions s + length (filter (\<lambda>ok. \<not> ok) ds)
        \<and> (r = Normal () \<longrightarrow> k = length rs \<and> length ds = length rs)"
proof (induction rs arbitrary: s i)
  case Nil
  then show ?case by auto
next
  case (Cons repo rest)
  let ?s0 = "print_color (Batch (M_progress i n)) s"
  obtain r1 s1 where d: "delete_repository e ?s0 repo = (r1, s1)"
    by (cases "delete_repository e ?s0 repo")
  note f = delete_repository_fields [OF d]
  have c: "delete_calls (trace s1) = delete_calls (trace s) @ [target (username s) repo]"
    and dr: "delete_results (trace s1)
             = delete_results (trace s) @ (case r1 of Normal ok \<Rightarrow> [ok] | _ \<Rightarrow> [])"
    using delete_repository_calls [OF d] by (simp_all add: delete_calls_def delete_results_def)
  show ?case
  proof (cases r1)
    case (Normal ok)
    define s2 where "s2 = sleep (if ok then s1\<lparr>successful_deletions := successful_deletions s1 + 1\<rparr>
                 else s1\<lparr>failed_deletions := failed_deletions s1 + 1\<rparr>)"
    have m: "username s2 = username s"
      "delete_calls (trace s2) = delete_calls (trace s1)"
      "delete_results (trace s2) = delete_results (trace s1)"
      "successful_deletions s2 = successful_deletions s + (if ok then 1 else 0)"
      "failed_deletions s2 = failed_deletions s + (if ok then 0 else 1)"
      using f by (simp_all add: s2_def delete_calls_def delete_results_def)
    from Cons.prems d Normal have "delete_loop e s2 n (i + 1) rest = (r, s')"
      by (simp add: s2_def)
    from Cons.IH [OF this] obtain k ds where
      a: "k \<le> length rest"
      "delete_calls (trace s') = delete_calls (trace s2) @ map (target (username s2)) (take k rest)"
      "delete_results (trace s') = delete_results (trace s2) @ ds"
      "successful_deletions s' = successful_deletions s2 + length (filter (\<lambda>ok. ok) ds)"
      "failed_deletions s' = failed_deletions s2 + length (filter (\<lambda>ok. \<not> ok) ds)"
      "r = Normal () \<longrightarrow> k = length rest \<and> length ds = length rest"
      by blast
    show ?thesis
      using a m c dr Normal
      by (intro exI [of _ "Suc k"] exI [of _ "ok # ds"]) simp
  next
    case (SysExit k)
    with Cons.prems d have "r = SysExit k" "s' = s1" by auto
    with c dr f SysExit show ?thesis
      by (intro exI [of _ "Suc 0"] exI [of _ "[]"]) simp
  next
    case (Uncaught x)
    with Cons.prems d have "r = Uncaught x" "s' = s1" by auto
    with c dr f Uncaught show ?thesis
      by (intro exI [of _ "Suc 0"] exI [of _ "[]"]) simp
  qed
qed

subsection \<open>The other phases of the batch\<close>

lemma batch_begin_fields [simp]:
  "username (batch_begin s) = username s" "repositories (batch_begin s) = repositories s"
  "successful_deletions (batch_begin s) = 0" "failed_deletions (batch_begin s) = 0"
  "verbose (batch_begin s) = verbose s" "dry_run (batch_begin s) = dry_run s"
  "stdin (batch_begin s) = stdin s"
  by (simp_all add: batch_begin_def Let_def)

lemma batch_begin_silent:
  assumes "f (Print (Batch M_starting)) = []" "\<And>n. f (Print (Batch (M_total n))) = []"
    "f (Print M_blank) = []"
  shows "observe f (trace (batch_begin s)) = observe f (trace s)"
  using assms by (simp add: batch_begin_def Let_def)

lemma print_items_fields [simp]:
  "username (print_items u rs s) = username s"
  "repositories (print_items u rs s) = repositories s"
  "successful_deletions (print_items u rs s) = successful_deletions s"
  "failed_deletions (print_items u rs s) = failed_deletions s"
  "verbose (print_items u rs s) = verbose s" "dry_run (print_items u rs s) = dry_run s"
  "stdin (print_items u rs s) = stdin s"
  unfolding print_items_def by (induction rs arbitrary: s; simp)+

lemma print_items_silent:
  assumes "\<And>t. f (Print (Batch (M_item t))) = []"
  shows "observe f (trace (print_items u rs s)) = observe f (trace s)"
  unfolding print_items_def using assms by (induction rs arbitrary: s) simp_all

lemma confirmation_gate_fields:
  assumes "confirmation_gate s valid = (r, s')"
  shows "username s' = username s" "repositories s' = repositories s"
    "successful_deletions s' = successful_deletions s"
    "failed_deletions s' = failed_deletions s"
    "verbose s' = verbose s" "dry_run s' = dry_run s"
  using assms
  by (auto simp: confirmation_gate_def read_input_def Let_def
           split: list.splits input.splits if_splits)

lemma confirmation_gate_silent:
  assumes "\<And>m. f (Print (Batch m)) = []" "f (Print M_blank) = []"
    "f (Print M_cancelled_newline) = []" "\<And>i. f (Input i) = []"
  shows "confirmation_gate s valid = (r, s') \<Longrightarrow> observe f (trace s') = observe f (trace s)"
  using assms
  by (auto simp: confirmation_gate_def read_input_def Let_def print_items_silent
           split: list.splits input.splits if_splits)

text \<open>What the gate answers depends on the next thing on the terminal only.\<close>

lemma confirmation_gate_result:
  "fst (confirmation_gate s valid)
   = (case stdin s of
        [] \<Rightarrow> Uncaught EOFError
      | Line c # rest \<Rightarrow> if c = ''DELETE'' then Normal () else SysExit 0
      | KeyboardInterrupt # rest \<Rightarrow> SysExit 0
      | EOF # rest \<Rightarrow> Uncaught EOFError)"
  by (auto simp: confirmation_gate_def read_input_def Let_def
           split: list.splits input.splits if_splits)

lemma confirmation_gate_inputs:
  "stdin s = i # rest \<Longrightarrow>
   inputs (trace (snd (confirmation_gate s valid))) = inputs (trace s) @ [i]
   \<and> prompts (trace (snd (confirmation_gate s valid))) = prompts (trace s) @ [M_confirm_prompt]"
  by (auto simp: confirmation_gate_def read_input_def Let_def print_items_silent
                 inputs_def prompts_def
           split: list.splits input.splits if_splits)

lemma summary_fields [simp]:
  "username (summary s) = username s" "repositories (summary s) = repositories s"
  "successful_deletions (summary s) = successful_deletions s"
  "failed_deletions (summary s) = failed_deletions s"
  "verbose (summary s) = verbose s" "dry_run (summary s) = dry_run s"
  "stdin (summary s) = stdin s"
  by (simp_all add: summary_def Let_def)

lemma summary_silent:
  assumes "\<And>m. f (Print (Summary m)) = []" "f (Print M_blank) = []" "\<And>m. f (Log m) = []"
  shows "observe f (trace (summary s)) = observe f (trace s)"
  using assms by (simp add: summary_def Let_def)

lemma summary_totals:
  "totals_printed (trace (summary s))
   = totals_printed (trace s) @ [successful_deletions s + failed_deletions s]"
  by (simp add: summary_def Let_def totals_printed_def)

lemma summary_dry:
  "dry_run s \<Longrightarrow> logs (trace (summary s)) = logs (trace s)"
  by (simp add: summary_def Let_def logs_def)

lemma deletion_pass_fields:
  assumes "deletion_pass e s valid = (r, s')"
  shows "username s' = username s" "dry_run s' = dry_run s" "stdin s' = stdin s"
  using delete_loop_fields [OF assms [unfolded deletion_pass_def]] by simp_all

lemma deletion_pass_silent:
  assumes "\<And>m. f (Print (Delete m)) = []" "\<And>t p. f (Run (GhRepoDelete t) p) = []"
    "\<And>m. f (Log m) = []" "\<And>m. f (Print (Batch m)) = []" "f Sleep = []"
    "f (Print M_blank) = []"
  shows "deletion_pass e s valid = (r, s') \<Longrightarrow> observe f (trace s') = observe f (trace s)"
  using delete_loop_silent [of f e _ _ _ valid r s', OF assms(1-5)] assms(4,6)
  by (simp add: deletion_pass_def)

lemma deletion_pass_dry:
  assumes "dry_run s" "deletion_pass e s valid = (r, s')"
  shows "r = Normal ()" "gh_deletes (trace s') = gh_deletes (trace s)"
    "logs (trace s') = logs (trace s)"
    "successful_deletions s' = successful_deletions s + length valid"
    "failed_deletions s' = failed_deletions s"
  using delete_loop_dry [OF _ assms(2) [unfolded deletion_pass_def]] assms(1)
  by (simp_all add: gh_deletes_def logs_def)

lemma deletion_pass_calls:
  assumes "deletion_pass e s valid = (r, s')"
  shows "\<exists>k ds. k \<le> length valid
        \<and> delete_calls (trace s') = delete_calls (trace s) @ map (target (username s)) (take k valid)
        \<and> delete_results (trace s') = delete_results (trace s) @ ds
        \<and> successful_deletions s' = successful_deletions s + length (filter (\<lambda>ok. ok) ds)
        \<and> failed_deletions s' = failed_deletions s + length (filter (\<lambda>ok. \<not> ok) ds)
        \<and> (r = Normal () \<longrightarrow> k = length valid \<and> length ds = length valid)"
  using delete_loop_calls [OF assms [unfolded deletion_pass_def]]
  by (simp add: delete_calls_def delete_results_def)

subsection \<open>The batch as a whole\<close>

lemma validation_pass_fields:
  assumes "validation_pass e (batch_begin s) = (r, s1)"
  shows "username s1 = username s" "repositories s1 = repositories s"
    "successful_deletions s1 = 0" "verbose s1 = verbose s" "dry_run s1 = dry_run s"
    "stdin s1 = stdin s"
  using validate_loop_fields [OF assms [unfolded validation_pass_def]] by simp_all

lemma validation_pass_silent:
  assumes "\<And>t p. f (Run (GhRepoView t) p) = []" "\<And>t. f (Print (Batch (M_not_found t))) = []"
    "f (Print (Batch M_starting)) = []" "\<And>n. f (Print (Batch (M_total n))) = []"
    "f (Print M_blank) = []"
  shows "validation_pass e (batch_begin s) = (r, s1) \<Longrightarrow>
         observe f (trace s1) = observe f (trace s)"
  using validate_loop_silent [of f e "batch_begin s" "[]" "repositories (batch_begin s)" r s1]
        batch_begin_silent [of f s] assms
  by (simp add: validation_pass_def)

lemma validation_pass_views:
  assumes "validation_pass e (batch_begin s) = (Normal valid, s1)"
  shows "\<exists>vs. view_results (trace s1) = view_results (trace s) @ vs
        \<and> map fst vs = map (target (username s)) (repositories s)
        \<and> valid = map fst (filter (\<lambda>(repo, t, ok). ok) (zip (repositories s) vs))
        \<and> failed_deletions s1 = length (filter (\<lambda>(t, ok). \<not> ok) vs)"
proof -
  from validate_loop_views [OF assms [unfolded validation_pass_def]] obtain vs where
    a: "view_results (trace s1) = view_results (trace (batch_begin s)) @ vs"
    "map fst vs = map (target (username s)) (take (length vs) (repositories s))"
    "length vs = length (repositories s)"
    "valid = map fst (filter (snd \<circ> snd) (zip (repositories s) vs))"
    "failed_deletions s1 = length (filter (Not \<circ> snd) vs)"
    by auto
  have b: "view_results (trace (batch_begin s)) = view_results (trace s)"
    unfolding view_results_def by (rule batch_begin_silent) simp_all
  show ?thesis
    using a b by (intro exI [of _ vs]) (simp add: comp_def case_prod_unfold)
qed

lemma batch_delete_unfold:
  assumes "validation_pass e (batch_begin s) = (Normal valid, s1)"
  shows "batch_delete e s auto_confirm =
     (if valid = [] then (SysExit 1, print_color (Batch M_no_valid) s1)
      else
        (case (if \<not> auto_confirm then confirmation_gate s1 valid else (Normal (), s1)) of
           (Normal u, s2) \<Rightarrow>
             (case deletion_pass e s2 valid of
                (Normal u', s3) \<Rightarrow> (Normal (), summary s3)
              | (SysExit k, s3) \<Rightarrow> (SysExit k, s3)
              | (Uncaught x, s3) \<Rightarrow> (Uncaught x, s3))
         | (SysExit k, s2) \<Rightarrow> (SysExit k, s2)
         | (Uncaught x, s2) \<Rightarrow> (Uncaught x, s2)))"
  by (simp add: batch_delete_def assms)

text \<open>
  After a validation pass that left \<open>valid\<close>: the calls of \<^verbatim>\<open>delete_repository\<close> are on a
  prefix of \<open>valid\<close>, the counters follow what the calls returned, and nothing else is
  viewed.
\<close>

lemma batch_delete_tail:
  assumes v: "validation_pass e (batch_begin s) = (Normal valid, s1)"
    and b: "batch_delete e s auto_confirm = (r, s')"
  shows "\<exists>k ds. k \<le> length valid
        \<and> delete_calls (trace s') = delete_calls (trace s) @ map (target (username s)) (take k valid)
        \<and> delete_results (trace s') = delete_results (trace s) @ ds
        \<and> successful_deletions s' = length (filter (\<lambda>ok. ok) ds)
        \<and> failed_deletions s' = failed_deletions s1 + length (filter (\<lambda>ok. \<not> ok) ds)
        \<and> view_results (trace s') = view_results (trace s1)
        \<and> (r = Normal () \<longrightarrow> k = length valid \<and> length ds = length valid
              \<and> totals_printed (trace s')
                  = totals_printed (trace s) @ [successful_deletions s' + failed_deletions s'])"
proof -
  note f1 = validation_pass_fields [OF v]
  have c1: "delete_calls (trace s1) = delete_calls (trace s)"
    and d1: "delete_results (trace s1) = delete_results (trace s)"
    and t1: "totals_printed (trace s1) = totals_printed (trace s)"
    unfolding delete_calls_def delete_results_def totals_printed_def
    by (rule validation_pass_silent [OF _ _ _ _ _ v]; simp)+
  note u = b [unfolded batch_delete_unfold [OF v]]
  show ?thesis
  proof (cases "valid = []")
    case True
    with u have "r = SysExit 1" "s' = print_color (Batch M_no_valid) s1" by simp_all
    with c1 d1 f1 show ?thesis
      by (intro exI [of _ 0] exI [of _ "[]"])
         (simp add: delete_calls_def delete_results_def view_results_def)
  next
    case False
    obtain r2 s2 where g: "(if \<not> auto_confirm then confirmation_gate s1 valid
                           else (Normal (), s1)) = (r2, s2)"
      by (cases "if \<not> auto_confirm then confirmation_gate s1 valid else (Normal (), s1)")
    have f2: "username s2 = username s1" "successful_deletions s2 = successful_deletions s1"
      "failed_deletions s2 = failed_deletions s1"
      using g confirmation_gate_fields [of s1 valid r2 s2] by (auto split: if_splits)
    have c2: "delete_calls (trace s2) = delete_calls (trace s1)"
      and d2: "delete_results (trace s2) = delete_results (trace s1)"
      and v2: "view_results (trace s2) = view_results (trace s1)"
      and t2: "totals_printed (trace s2) = totals_printed (trace s1)"
      using g confirmation_gate_silent [of delete_call_of s1 valid r2 s2]
        confirmation_gate_silent [of delete_result_of s1 valid r2 s2]
        confirmation_gate_silent [of view_of s1 valid r2 s2]
        confirmation_gate_silent [of total_of s1 valid r2 s2]
      by (auto simp: delete_calls_def delete_results_def view_results_def totals_printed_def
               split: if_splits)
    show ?thesis
    proof (cases r2)
      case (Normal u2)
      obtain r3 s3 where p: "deletion_pass e s2 valid = (r3, s3)"
        by (cases "deletion_pass e s2 valid")
      from deletion_pass_calls [OF p] obtain k ds where
        a: "k \<le> length valid"
        "delete_calls (trace s3) = delete_calls (trace s2) @ map (target (username s2)) (take k valid)"
        "delete_results (trace s3) = delete_results (trace s2) @ ds"
        "successful_deletions s3 = successful_deletions s2 + length (filter (\<lambda>ok. ok) ds)"
        "failed_deletions s3 = failed_deletions s2 + length (filter (\<lambda>ok. \<not> ok) ds)"
        "r3 = Normal () \<longrightarrow> k = length valid \<and> length ds = length valid"
        by blast
      have v3: "view_results (trace s3) = view_results (trace s2)"
        and t3: "totals_printed (trace s3) = totals_printed (trace s2)"
        unfolding view_results_def totals_printed_def
        by (rule deletion_pass_silent [OF _ _ _ _ _ _ p]; simp)+
      show ?thesis
      proof (cases r3)
        case (Normal u3)
        with u False g \<open>r2 = Normal u2\<close> p have e: "r = Normal ()" "s' = summary s3" by simp_all
        have s4: "delete_calls (trace (summary s3)) = delete_calls (trace s3)"
          "delete_results (trace (summary s3)) = delete_results (trace s3)"
          "view_results (trace (summary s3)) = view_results (trace s3)"
          unfolding delete_calls_def delete_results_def view_results_def
          by (rule summary_silent; simp)+
        show ?thesis
          using a c1 c2 d1 d2 v2 v3 t1 t2 t3 f1 f2 s4 e Normal summary_totals [of s3]
          by (intro exI [of _ k] exI [of _ ds]) simp
      next
        case (SysExit k3)
        with u False g \<open>r2 = Normal u2\<close> p have e: "r = SysExit k3" "s' = s3" by simp_all
        show ?thesis
          using a c1 c2 d1 d2 v2 v3 f1 f2 e
          by (intro exI [of _ k] exI [of _ ds]) simp
      next
        case (Uncaught x3)
        with u False g \<open>r2 = Normal u2\<close> p have e: "r = Uncaught x3" "s' = s3" by simp_all
        show ?thesis
          using a c1 c2 d1 d2 v2 v3 f1 f2 e
          by (intro exI [of _ k] exI [of _ ds]) simp
      qed
    next
      case (SysExit k2)
      with u False g have e: "r = SysExit k2" "s' = s2" by simp_all
      show ?thesis
        using c1 c2 d1 d2 v2 f1 f2 e
        by (intro exI [of _ 0] exI [of _ "[]"]) simp
    next
      case (Uncaught x2)
      with u False g have e: "r = Uncaught x2" "s' = s2" by simp_all
      show ?thesis
        using c1 c2 d1 d2 v2 f1 f2 e
        by (intro exI [of _ 0] exI [of _ "[]"]) simp
    qed
  qed
qed

lemma kept_targets:
  "map fst vs = map g rs \<Longrightarrow>
   map g (map fst (filter (\<lambda>(repo, t, ok). ok) (zip rs vs)))
   = map fst (filter (\<lambda>(t, ok). ok) vs)"
proof (induction rs arbitrary: vs)
  case Nil
  then show ?case by simp
next
  case (Cons a rs)
  then obtain v vs' where "vs = v # vs'" by (cases vs) auto
  with Cons show ?case by (cases v) auto
qed

lemma batch_delete_normal:
  assumes "batch_delete e s auto_confirm = (Normal (), s')"
  obtains valid s1 where "validation_pass e (batch_begin s) = (Normal valid, s1)"
proof -
  obtain rv s1 where v: "validation_pass e (batch_begin s) = (rv, s1)"
    by (cases "validation_pass e (batch_begin s)")
  with assms obtain valid where "rv = Normal valid"
    by (cases rv) (auto simp: batch_delete_def)
  with v that show ?thesis by blast
qed

lemma batch_delete_dry:
  assumes d: "dry_run s" and b: "batch_delete e s auto_confirm = (r, s')"
  shows "gh_deletes (trace s') = gh_deletes (trace s)"
    and "logs (trace s') = logs (trace s)"
    and "validation_pass e (batch_begin s) = (Normal valid, s1) \<Longrightarrow> r = Normal ()
         \<Longrightarrow> successful_deletions s' = length valid"
proof -
  obtain rv sv where v: "validation_pass e (batch_begin s) = (rv, sv)"
    by (cases "validation_pass e (batch_begin s)")
  note f1 = validation_pass_fields [OF v]
  have g1: "gh_deletes (trace sv) = gh_deletes (trace s)"
    and l1: "logs (trace sv) = logs (trace s)"
    unfolding gh_deletes_def logs_def
    by (rule validation_pass_silent [OF _ _ _ _ _ v]; simp)+
  have "gh_deletes (trace s') = gh_deletes (trace s) \<and> logs (trace s') = logs (trace s)
        \<and> (\<forall>vl. rv = Normal vl \<longrightarrow> r = Normal () \<longrightarrow> successful_deletions s' = length vl)"
  proof (cases rv)
    case (SysExit k)
    with b v have "s' = sv" "r = SysExit k" by (simp_all add: batch_delete_def)
    with g1 l1 SysExit show ?thesis by simp
  next
    case (Uncaught x)
    with b v have "s' = sv" "r = Uncaught x" by (simp_all add: batch_delete_def)
    with g1 l1 Uncaught show ?thesis by simp
  next
    case (Normal vl)
    note u = b [unfolded batch_delete_unfold [OF v [unfolded Normal]]]
    show ?thesis
    proof (cases "vl = []")
      case True
      with u have "r = SysExit 1" "s' = print_color (Batch M_no_valid) sv" by simp_all
      with g1 l1 show ?thesis by (simp add: gh_deletes_def logs_def)
    next
      case False
      obtain r2 s2 where g: "(if \<not> auto_confirm then confirmation_gate sv vl
                             else (Normal (), sv)) = (r2, s2)"
        by (cases "if \<not> auto_confirm then confirmation_gate sv vl else (Normal (), sv)")
      have f2: "dry_run s2 = dry_run sv" "successful_deletions s2 = successful_deletions sv"
        using g confirmation_gate_fields [of sv vl r2 s2] by (auto split: if_splits)
      have g2: "gh_deletes (trace s2) = gh_deletes (trace sv)"
        and l2: "logs (trace s2) = logs (trace sv)"
        using g confirmation_gate_silent [of gh_delete_of sv vl r2 s2]
          confirmation_gate_silent [of log_of sv vl r2 s2]
        by (auto simp: gh_deletes_def logs_def split: if_splits)
      show ?thesis
      proof (cases r2)
        case (Normal u2)
        obtain r3 s3 where p: "deletion_pass e s2 vl = (r3, s3)"
          by (cases "deletion_pass e s2 vl")
        have d2: "dry_run s2" using d f1 f2 by simp
        note dp = deletion_pass_dry [OF d2 p] deletion_pass_fields [OF p]
        with u False g Normal p have e: "r = Normal ()" "s' = summary s3" by simp_all
        have "gh_deletes (trace (summary s3)) = gh_deletes (trace s3)"
          unfolding gh_deletes_def by (rule summary_silent) simp_all
        moreover have "logs (trace (summary s3)) = logs (trace s3)"
          using dp d2 by (simp add: summary_dry)
        ultimately show ?thesis
          using e dp g1 g2 l1 l2 f1 f2 \<open>rv = Normal vl\<close> by simp
      next
        case (SysExit k2)
        with u False g have "r = SysExit k2" "s' = s2" by simp_all
        with g1 g2 l1 l2 show ?thesis by simp
      next
        case (Uncaught x2)
        with u False g have "r = Uncaught x2" "s' = s2" by simp_all
        with g1 g2 l1 l2 show ?thesis by simp
      qed
    qed
  qed
  with v show "gh_deletes (trace s') = gh_deletes (trace s)"
    and "logs (trace s') = logs (trace s)"
    and "validation_pass e (batch_begin s) = (Normal valid, s1) \<Longrightarrow> r = Normal ()
         \<Longrightarrow> successful_deletions s' = length valid"
    by simp_all
qed

lemmas run_defs = validation_pass_def batch_begin_def validate_repository_def
  delete_repository_def run_checked_def run_def deletion_pass_def confirmation_gate_def
  read_input_def print_items_def summary_def batch_delete_def target_def Let_def
  w_env_def w_gh_def w_state_def w_with_def

section \<open>Facts about the picker\<close>

lemma print_menu_fields [simp]:
  "username (print_menu i rs s) = username s"
  "repositories (print_menu i rs s) = repositories s"
  "stdin (print_menu i rs s) = stdin s"
  by (induction rs arbitrary: i s; simp)+

lemma print_menu_silent:
  assumes "\<And>i r. f (Print (Select (M_menu_item i r))) = []"
  shows "observe f (trace (print_menu i rs s)) = observe f (trace s)"
  using assms by (induction rs arbitrary: i s) simp_all

lemma select_loop_fields:
  "select_loop repos s acc toks = (sel, s') \<Longrightarrow>
     username s' = username s \<and> stdin s' = stdin s"
  by (induction toks arbitrary: s acc) (auto split: option.splits if_splits)

lemma select_loop_picked:
  "select_loop repos s acc toks = (sel, s') \<Longrightarrow>
     sel = acc @ picked repos toks
     \<and> warnings (trace s') = warnings (trace s) @ skipped (length repos) toks"
proof (induction toks arbitrary: s acc)
  case Nil
  then show ?case by (auto simp: picked_def skipped_def)
next
  case (Cons tok toks)
  show ?case
  proof (cases "in_range (length repos) tok")
    case True
    then obtain num where n: "py_int tok = Some num" "1 \<le> num" "num \<le> int (length repos)"
      by (auto simp: in_range_def split: option.splits)
    with Cons.prems have
      "select_loop repos s (acc @ [repos ! (nat num - 1)]) toks = (sel, s')" by simp
    from Cons.IH [OF this] True n show ?thesis
      by (simp add: picked_def skipped_def)
  next
    case False
    with Cons.prems have
      "select_loop repos (print_color (Select (M_skip_invalid tok)) s) acc toks = (sel, s')"
      by (auto simp: in_range_def split: option.splits if_splits)
    from Cons.IH [OF this] False show ?thesis
      by (simp add: picked_def skipped_def warnings_def)
  qed
qed

lemma spaces_are_not_lowered:
  "\<forall>c \<in> set [CHR 0x09, CHR 0x0A, CHR 0x0B, CHR 0x0C, CHR 0x0D,
                  CHR 0x1C, CHR 0x1D, CHR 0x1E, CHR 0x1F, CHR 0x20]. lower_char c = c"
  by (simp add: lower_char_def)

lemma space_is_not_lowered: "is_space c \<Longrightarrow> lower_char c = c"
  using spaces_are_not_lowered unfolding is_space_def by blast

lemma lower_all_no_strip:
  assumes "py_lower answer = ''all''"
  shows "py_strip answer = answer"
proof -
  from assms have "length (py_lower answer) = 3" by simp
  then have "length answer = 3" by (simp add: py_lower_def)
  then obtain a b c where abc0: "answer = [a, b, c]"
    by (auto simp: length_Suc_conv numeral_3_eq_3)
  with assms have abc: "answer = [a, b, c]"
    "lower_char a = CHR ''a''" "lower_char c = CHR ''l''"
    by (simp_all add: py_lower_def)
  have "\<not> is_space a"
  proof
    assume "is_space a"
    with space_is_not_lowered abc(2) have "is_space (CHR ''a'')" by metis
    then show False by (simp add: is_space_def)
  qed
  moreover have "\<not> is_space c"
  proof
    assume "is_space c"
    with space_is_not_lowered abc(3) have "is_space (CHR ''l'')" by metis
    then show False by (simp add: is_space_def)
  qed
  ultimately show ?thesis by (simp add: abc(1) py_strip_def)
qed

text \<open>What the picker does with a line, once the menu is on the screen.\<close>

lemma select_from_line:
  assumes "repos \<noteq> []" "stdin s = Line answer # rest"
  shows "py_lower (py_strip answer) = ''all'' \<Longrightarrow>
           select_from repos s = (Normal (), snd (select_from repos s))
           \<and> repositories (snd (select_from repos s)) = repos
           \<and> warnings (trace (snd (select_from repos s))) = warnings (trace s)"
    and "py_lower (py_strip answer) \<noteq> ''all'' \<Longrightarrow>
           fst (select_from repos s)
             = (if picked repos (py_split (py_strip answer)) = [] then SysExit 0 else Normal ())
           \<and> repositories (snd (select_from repos s)) = picked repos (py_split (py_strip answer))
           \<and> warnings (trace (snd (select_from repos s)))
               = warnings (trace s) @ skipped (length repos) (py_split (py_strip answer))"
proof -
  let ?s0 = "print_color (Select M_or_all) (print_color (Select M_enter_numbers)
               (print_color M_blank (print_menu 1 repos (print_color M_blank s))))"
  have w0: "warnings (trace ?s0) = warnings (trace s)"
    by (simp add: warnings_def print_menu_silent)
  have r: "read_input ?s0 = (Line answer, emit (Input (Line answer)) (?s0\<lparr>stdin := rest\<rparr>))"
    using assms(2) by (simp add: read_input_def)
  let ?s1 = "emit (Input (Line answer)) (?s0\<lparr>stdin := rest\<rparr>)"
  have w1: "warnings (trace ?s1) = warnings (trace s)"
    using w0 by (simp add: warnings_def)
  show "py_lower (py_strip answer) = ''all'' \<Longrightarrow>
           select_from repos s = (Normal (), snd (select_from repos s))
           \<and> repositories (snd (select_from repos s)) = repos
           \<and> warnings (trace (snd (select_from repos s))) = warnings (trace s)"
    using assms(1) r w1 by (simp add: select_from_def Let_def)
  assume na: "py_lower (py_strip answer) \<noteq> ''all''"
  obtain sel s2 where l: "select_loop repos ?s1 [] (py_split (py_strip answer)) = (sel, s2)"
    by (cases "select_loop repos ?s1 [] (py_split (py_strip answer))")
  from select_loop_picked [OF l] w1 have
    p: "sel = picked repos (py_split (py_strip answer))"
    "warnings (trace s2) = warnings (trace s) @ skipped (length repos) (py_split (py_strip answer))"
    by simp_all
  have "select_from repos s
        = (if sel = [] then (SysExit 0, print_color (Select M_none_selected) (s2\<lparr>repositories := sel\<rparr>))
           else (Normal (), s2\<lparr>repositories := sel\<rparr>))"
    using assms(1) r na l by (simp add: select_from_def Let_def)
  with p show "fst (select_from repos s)
             = (if picked repos (py_split (py_strip answer)) = [] then SysExit 0 else Normal ())
           \<and> repositories (snd (select_from repos s)) = picked repos (py_split (py_strip answer))
           \<and> warnings (trace (snd (select_from repos s)))
               = warnings (trace s) @ skipped (length repos) (py_split (py_strip answer))"
    by (simp add: warnings_def)
qed

lemma select_loop_username [simp]:
  "username (snd (select_loop repos s acc toks)) = username s"
  using select_loop_fields [of repos s acc toks] by (cases "select_loop repos s acc toks") simp

lemma select_from_nonempty:
  "fst (select_from repos s) = Normal () \<longrightarrow> repositories (snd (select_from repos s)) \<noteq> []"
  by (simp add: select_from_def Let_def read_input_def case_prod_unfold
           split: list.split input.split)

lemma select_from_username:
  "username (snd (select_from repos s)) = username s"
  by (simp add: select_from_def Let_def read_input_def case_prod_unfold
           split: list.split input.split)

lemma list_repositories_fields:
  assumes "list_repositories e s = (r, s')"
  shows "username s' = username s" "stdin s' = stdin s" "repositories s' = repositories s"
    "warnings (trace s') = warnings (trace s)"
  using assms
  by (auto simp: list_repositories_def run_checked_def run_def Let_def warnings_def
           split: proc.splits if_splits)

lemma picker_header_fields [simp]:
  "username (picker_header s) = username s" "stdin (picker_header s) = stdin s"
  "repositories (picker_header s) = repositories s"
  "warnings (trace (picker_header s)) = warnings (trace s)"
  by (simp_all add: picker_header_def warnings_def)

lemma interactive_selection_nonempty:
  assumes "interactive_selection e s = (Normal (), s')"
  shows "repositories s' \<noteq> []"
proof -
  obtain r1 s1 where l: "list_repositories e (picker_header s) = (r1, s1)"
    by (cases "list_repositories e (picker_header s)")
  show ?thesis
  proof (cases r1)
    case (Normal repos)
    with assms l have "select_from repos s1 = (Normal (), s')"
      by (simp add: interactive_selection_def)
    with select_from_nonempty [of repos s1] show ?thesis by simp
  next
    case (SysExit k)
    with assms l show ?thesis by (simp add: interactive_selection_def)
  next
    case (Uncaught x)
    with assms l show ?thesis by (simp add: interactive_selection_def)
  qed
qed

lemma interactive_selection_username:
  assumes "interactive_selection e s = (r, s')"
  shows "username s' = username s"
proof -
  obtain r1 s1 where l: "list_repositories e (picker_header s) = (r1, s1)"
    by (cases "list_repositories e (picker_header s)")
  note f = list_repositories_fields(1) [OF l]
  show ?thesis
  proof (cases r1)
    case (Normal repos)
    with assms l have "select_from repos s1 = (r, s')"
      by (simp add: interactive_selection_def)
    with select_from_username [of repos s1] f show ?thesis by simp
  next
    case (SysExit k)
    with assms l f show ?thesis by (auto simp: interactive_selection_def)
  next
    case (Uncaught x)
    with assms l f show ?thesis by (auto simp: interactive_selection_def)
  qed
qed

lemma interactive_selection_listed:
  assumes "list_repositories e (picker_header s) = (Normal repos, s1)"
  shows "interactive_selection e s = select_from repos s1"
  by (simp add: interactive_selection_def assms)

lemmas picker_defs = interactive_selection_def picker_header_def list_repositories_def
  select_from_def read_input_def run_checked_def run_def Let_def
  py_split_lines_def py_split_def py_strip_def py_lower_def lower_char_def is_space_def
  py_int_def parse_nat_def is_digit_def digit_val_def
  w_env_def w_gh_def w_state_def w_with_def

section \<open>Facts about \<^verbatim>\<open>main\<close>\<close>

lemma check_gh_cli_username:
  "check_gh_cli e s = (r, s') \<Longrightarrow> username s' = username s"
  by (auto simp: check_gh_cli_def run_checked_def run_def Let_def
           split: proc.splits if_splits)

lemma check_auth_username:
  "check_auth e s = (r, s') \<Longrightarrow> username s' = username s"
  by (auto simp: check_auth_def run_checked_def run_def Let_def
           split: proc.splits if_splits)

lemma get_username_given:
  "username s \<noteq> [] \<Longrightarrow> get_username e s = (r, s') \<Longrightarrow> username s' = username s"
  by (auto simp: get_username_def)

lemma main_checks_username:
  assumes "username s \<noteq> []" "main_checks e s = (r, s')"
  shows "username s' = username s"
proof -
  obtain r1 s1 where a: "check_gh_cli e s = (r1, s1)" by (cases "check_gh_cli e s")
  obtain r2 s2 where b: "check_auth e s1 = (r2, s2)" by (cases "check_auth e s1")
  note u = check_gh_cli_username [OF a] check_auth_username [OF b]
  show ?thesis
  proof (cases r1)
    case (Normal u1)
    show ?thesis
    proof (cases r2)
      case (Normal u2)
      with assms a b \<open>r1 = Normal u1\<close> have "get_username e s2 = (r, s')"
        by (simp add: main_checks_def)
      with get_username_given [of s2 e r s'] assms(1) u show ?thesis by simp
    next
      case (SysExit k)
      with assms a b \<open>r1 = Normal u1\<close> u show ?thesis by (auto simp: main_checks_def)
    next
      case (Uncaught x)
      with assms a b \<open>r1 = Normal u1\<close> u show ?thesis by (auto simp: main_checks_def)
    qed
  next
    case (SysExit k)
    with assms a u show ?thesis by (auto simp: main_checks_def)
  next
    case (Uncaught x)
    with assms a u show ?thesis by (auto simp: main_checks_def)
  qed
qed

lemma main_init_username:
  "username (main_init a inp) = (if given (arg_username a) then the (arg_username a) else [])"
  by (simp add: main_init_def Let_def)

lemma load_config_username:
  assumes "config_at e p = Config cu cr"
  shows "load_config e s p = (Normal (), snd (load_config e s p))"
    and "username (snd (load_config e s p))
         = (case cu of Some u \<Rightarrow> if u \<noteq> [] then u else username s | None \<Rightarrow> username s)"
  using assms by (auto simp: load_config_def Let_def split: option.splits)

lemma load_from_file_username:
  "load_from_file e s p = (r, s') \<Longrightarrow> username s' = username s"
  by (auto simp: load_from_file_def Let_def split: list_file.splits)

text \<open>The three steps of lines 365 to 377, when all of them return.\<close>

lemma main_inputs_steps:
  assumes "main_inputs e a s = (Normal (), s')"
  obtains s1 s2 where
    "(if given (arg_config a) then load_config e s (the (arg_config a)) else (Normal (), s))
       = (Normal (), s1)"
    "(if given (arg_file a) then load_from_file e s1 (the (arg_file a)) else (Normal (), s1))
       = (Normal (), s2)"
    "(if arg_interactive a
         \<or> repositories (if arg_repositories a \<noteq> []
                          then s2\<lparr>repositories := repositories s2 @ arg_repositories a\<rparr>
                          else s2) = []
      then interactive_selection e
             (if arg_repositories a \<noteq> []
              then s2\<lparr>repositories := repositories s2 @ arg_repositories a\<rparr> else s2)
      else (Normal (), if arg_repositories a \<noteq> []
                       then s2\<lparr>repositories := repositories s2 @ arg_repositories a\<rparr>
                       else s2)) = (Normal (), s')"
proof -
  obtain r1 s1 where c: "(if given (arg_config a) then load_config e s (the (arg_config a))
                          else (Normal (), s)) = (r1, s1)"
    by (cases "if given (arg_config a) then load_config e s (the (arg_config a))
               else (Normal (), s)")
  obtain r2 s2 where f: "(if given (arg_file a) then load_from_file e s1 (the (arg_file a))
                          else (Normal (), s1)) = (r2, s2)"
    by (cases "if given (arg_file a) then load_from_file e s1 (the (arg_file a))
               else (Normal (), s1)")
  from assms c have r1: "r1 = Normal ()"
    unfolding main_inputs_def by (cases r1) simp_all
  from assms c f r1 have r2: "r2 = Normal ()"
    unfolding main_inputs_def by (cases r2) simp_all
  from assms c f r1 r2 have
    "(if arg_interactive a
         \<or> repositories (if arg_repositories a \<noteq> []
                          then s2\<lparr>repositories := repositories s2 @ arg_repositories a\<rparr>
                          else s2) = []
      then interactive_selection e
             (if arg_repositories a \<noteq> []
              then s2\<lparr>repositories := repositories s2 @ arg_repositories a\<rparr> else s2)
      else (Normal (), if arg_repositories a \<noteq> []
                       then s2\<lparr>repositories := repositories s2 @ arg_repositories a\<rparr>
                       else s2)) = (Normal (), s')"
    unfolding main_inputs_def by (simp add: Let_def)
  with c f r1 r2 that show ?thesis by blast
qed

lemma main_inputs_nonempty:
  assumes "main_inputs e a s = (Normal (), s')"
  shows "repositories s' \<noteq> []"
proof -
  from assms obtain s1 s2 where
    "(if arg_interactive a
         \<or> repositories (if arg_repositories a \<noteq> []
                          then s2\<lparr>repositories := repositories s2 @ arg_repositories a\<rparr>
                          else s2) = []
      then interactive_selection e
             (if arg_repositories a \<noteq> []
              then s2\<lparr>repositories := repositories s2 @ arg_repositories a\<rparr> else s2)
      else (Normal (), if arg_repositories a \<noteq> []
                       then s2\<lparr>repositories := repositories s2 @ arg_repositories a\<rparr>
                       else s2)) = (Normal (), s')"
    by (rule main_inputs_steps)
  then show ?thesis
    by (auto split: if_splits dest: interactive_selection_nonempty)
qed

lemma main_inputs_username:
  assumes "main_inputs e a s = (Normal (), s')" and "given (arg_config a)"
    and "config_at e (the (arg_config a)) = Config cu cr"
  shows "username s'
         = (case cu of Some u \<Rightarrow> if u \<noteq> [] then u else username s | None \<Rightarrow> username s)"
proof -
  from assms(1) obtain s1 s2 where
    a: "(if given (arg_config a) then load_config e s (the (arg_config a)) else (Normal (), s))
       = (Normal (), s1)"
    and b: "(if given (arg_file a) then load_from_file e s1 (the (arg_file a))
             else (Normal (), s1)) = (Normal (), s2)"
    and c: "(if arg_interactive a
         \<or> repositories (if arg_repositories a \<noteq> []
                          then s2\<lparr>repositories := repositories s2 @ arg_repositories a\<rparr>
                          else s2) = []
      then interactive_selection e
             (if arg_repositories a \<noteq> []
              then s2\<lparr>repositories := repositories s2 @ arg_repositories a\<rparr> else s2)
      else (Normal (), if arg_repositories a \<noteq> []
                       then s2\<lparr>repositories := repositories s2 @ arg_repositories a\<rparr>
                       else s2)) = (Normal (), s')"
    by (rule main_inputs_steps)
  from a assms(2) load_config_username [OF assms(3), of s] have
    u1: "username s1
         = (case cu of Some u \<Rightarrow> if u \<noteq> [] then u else username s | None \<Rightarrow> username s)"
    by (metis snd_conv)
  from b have u2: "username s2 = username s1"
    by (auto split: if_splits dest: load_from_file_username)
  from c have "username s' = username s2"
    by (auto split: if_splits dest: interactive_selection_username)
  with u1 u2 show ?thesis by simp
qed

lemma main_resolve_steps:
  assumes "main_resolve e a inp = (Normal (), s)"
  obtains s1 where "main_checks e (main_init a inp) = (Normal (), s1)"
    "main_inputs e a s1 = (Normal (), s)"
proof -
  obtain r1 s1 where c: "main_checks e (main_init a inp) = (r1, s1)"
    by (cases "main_checks e (main_init a inp)")
  with assms have "r1 = Normal ()" unfolding main_resolve_def by (cases r1) simp_all
  with assms c that show ?thesis by (simp add: main_resolve_def)
qed

lemma main_resolve_nonempty:
  assumes "main_resolve e a inp = (Normal (), s)"
  shows "repositories s \<noteq> []"
  using assms by (auto elim!: main_resolve_steps dest: main_inputs_nonempty)

lemma main_without_the_check:
  "main e a inp =
     (case main_resolve e a inp of
        (Normal u, s) \<Rightarrow> batch_delete e s (arg_auto_confirm a)
      | (SysExit k, s) \<Rightarrow> (SysExit k, s)
      | (Uncaught x, s) \<Rightarrow> (Uncaught x, s))"
proof (cases "main_resolve e a inp")
  case (Pair r s)
  then show ?thesis
    using main_resolve_nonempty [of e a inp s]
    by (cases r) (simp_all add: main_def)
qed

lemmas main_defs = main_def main_resolve_def main_checks_def main_init_def main_inputs_def
  check_gh_cli_def check_auth_def get_username_def load_config_def load_from_file_def
  given_def w_args_def

section \<open>Validation, confirmation, deletion and summary\<close>

text \<open>
  C1. When the validation pass of \<^verbatim>\<open>batch_delete\<close> ends with the list \<open>valid\<close>: every
  candidate was asked about once, in order (\<open>vs\<close> are the answers of \<^verbatim>\<open>gh repo view\<close>);
  \<open>valid\<close> is the candidates answered yes, in the original order and with duplicates kept;
  the failure counter is the number of candidates answered no; and the calls of
  \<^verbatim>\<open>delete_repository\<close> in the whole run are on the first \<open>k\<close> entries of \<open>valid\<close>, in
  order, all of them when the run ends normally. So a candidate that failed validation is
  never handed to \<^verbatim>\<open>delete_repository\<close>.
\<close>

theorem validated_subsequence:
  assumes "validation_pass e (batch_begin s) = (Normal valid, s1)"
  shows "\<exists>vs k. view_results (trace s1) = view_results (trace s) @ vs
        \<and> map fst vs = map (target (username s)) (repositories s)
        \<and> valid = map fst (filter (\<lambda>(repo, t, ok). ok) (zip (repositories s) vs))
        \<and> failed_deletions s1 = length (filter (\<lambda>(t, ok). \<not> ok) vs)
        \<and> k \<le> length valid
        \<and> delete_calls (trace (snd (batch_delete e s auto_confirm)))
            = delete_calls (trace s) @ map (target (username s)) (take k valid)
        \<and> (fst (batch_delete e s auto_confirm) = Normal () \<longrightarrow> k = length valid)"
proof -
  from validation_pass_views [OF assms] obtain vs where
    a: "view_results (trace s1) = view_results (trace s) @ vs"
    "map fst vs = map (target (username s)) (repositories s)"
    "valid = map fst (filter (\<lambda>(repo, t, ok). ok) (zip (repositories s) vs))"
    "failed_deletions s1 = length (filter (\<lambda>(t, ok). \<not> ok) vs)"
    by blast
  obtain r s' where b: "batch_delete e s auto_confirm = (r, s')"
    by (cases "batch_delete e s auto_confirm")
  from batch_delete_tail [OF assms b] obtain k where
    c: "k \<le> length valid"
    "delete_calls (trace s') = delete_calls (trace s) @ map (target (username s)) (take k valid)"
    "r = Normal () \<longrightarrow> k = length valid"
    by blast
  show ?thesis
    using a(1,2) a(3) [symmetric] a(4) b c
    by (intro exI [of _ vs] exI [of _ k]) simp
qed

theorem validated_subsequence_witness:
  "fst (validation_pass w_env (batch_begin w_state)) = Normal [''web'', ''old'', ''web'']
   \<and> fst (batch_delete w_env w_state True) = Normal ()
   \<and> delete_calls (trace (snd (batch_delete w_env w_state True)))
       = [''alice/web'', ''alice/old'', ''alice/web'']
   \<and> (\<exists>vs k. view_results (trace (snd (validation_pass w_env (batch_begin w_state))))
                  = view_results (trace w_state) @ vs
        \<and> map fst vs = map (target (username w_state)) (repositories w_state)
        \<and> [''web'', ''old'', ''web'']
            = map fst (filter (\<lambda>(repo, t, ok). ok) (zip (repositories w_state) vs))
        \<and> failed_deletions (snd (validation_pass w_env (batch_begin w_state)))
            = length (filter (\<lambda>(t, ok). \<not> ok) vs)
        \<and> k \<le> length [''web'', ''old'', ''web'']
        \<and> delete_calls (trace (snd (batch_delete w_env w_state True)))
            = delete_calls (trace w_state)
              @ map (target (username w_state)) (take k [''web'', ''old'', ''web''])
        \<and> (fst (batch_delete w_env w_state True) = Normal ()
             \<longrightarrow> k = length [''web'', ''old'', ''web'']))"
proof -
  have f: "fst (validation_pass w_env (batch_begin w_state)) = Normal [''web'', ''old'', ''web'']"
    by (simp add: run_defs)
  then have h: "validation_pass w_env (batch_begin w_state)
      = (Normal [''web'', ''old'', ''web''], snd (validation_pass w_env (batch_begin w_state)))"
    by (simp add: prod_eq_iff)
  have n: "fst (batch_delete w_env w_state True) = Normal ()"
    by (simp add: run_defs)
  have c: "delete_calls (trace (snd (batch_delete w_env w_state True)))
           = [''alice/web'', ''alice/old'', ''alice/web'']"
    by (simp add: run_defs delete_calls_def)
  from f n c validated_subsequence [OF h, of True] show ?thesis by blast
qed

text \<open>
  C5. When the validation pass leaves no repository, \<^verbatim>\<open>batch_delete\<close> exits with code 1
  right after it, having printed one more line: no confirmation prompt was shown, nothing
  was read from the terminal and \<^verbatim>\<open>delete_repository\<close> was never called.
\<close>

theorem no_valid_aborts:
  assumes "validation_pass e (batch_begin s) = (Normal [], s1)"
  shows "batch_delete e s auto_confirm = (SysExit 1, print_color (Batch M_no_valid) s1)
       \<and> prompts (trace (print_color (Batch M_no_valid) s1)) = prompts (trace s)
       \<and> inputs (trace (print_color (Batch M_no_valid) s1)) = inputs (trace s)
       \<and> stdin (print_color (Batch M_no_valid) s1) = stdin s
       \<and> delete_calls (trace (print_color (Batch M_no_valid) s1)) = delete_calls (trace s)"
proof -
  have "prompts (trace s1) = prompts (trace s)" "inputs (trace s1) = inputs (trace s)"
    "delete_calls (trace s1) = delete_calls (trace s)"
    unfolding prompts_def inputs_def delete_calls_def
    by (rule validation_pass_silent [OF _ _ _ _ _ assms]; simp)+
  with validation_pass_fields [OF assms] batch_delete_unfold [OF assms, of auto_confirm]
  show ?thesis by (simp add: prompts_def inputs_def delete_calls_def)
qed

theorem no_valid_aborts_witness:
  "fst (validation_pass w_env (batch_begin (w_with [''gone''] False []))) = Normal []
   \<and> fst (batch_delete w_env (w_with [''gone''] False []) False) = SysExit 1
   \<and> inputs (trace (snd (batch_delete w_env (w_with [''gone''] False []) False))) = []
   \<and> delete_calls (trace (snd (batch_delete w_env (w_with [''gone''] False []) False))) = []"
proof -
  have f: "fst (validation_pass w_env (batch_begin (w_with [''gone''] False []))) = Normal []"
    by (simp add: run_defs)
  then have h: "validation_pass w_env (batch_begin (w_with [''gone''] False []))
      = (Normal [], snd (validation_pass w_env (batch_begin (w_with [''gone''] False []))))"
    by (simp add: prod_eq_iff)
  have t: "trace (w_with [''gone''] False []) = []"
    by (simp add: w_with_def w_state_def)
  from f t no_valid_aborts [OF h, of False] show ?thesis
    by (simp add: inputs_def delete_calls_def)
qed

text \<open>
  C2. Without auto-confirm, when the validation pass left at least one repository (so the
  prompt is reached) and the answer at the prompt is Ctrl-C or any line other than exactly
  \<^verbatim>\<open>DELETE\<close>, \<^verbatim>\<open>batch_delete\<close> exits with code 0 and \<^verbatim>\<open>delete_repository\<close> was never
  called; the prompt was shown once and that answer was the one read.
\<close>

theorem declined_confirmation:
  assumes v: "validation_pass e (batch_begin s) = (Normal valid, s1)" and ne: "valid \<noteq> []"
    and i: "stdin s = i # rest"
    and no: "i = KeyboardInterrupt \<or> (\<exists>c. i = Line c \<and> c \<noteq> ''DELETE'')"
  shows "fst (batch_delete e s False) = SysExit 0
       \<and> delete_calls (trace (snd (batch_delete e s False))) = delete_calls (trace s)
       \<and> prompts (trace (snd (batch_delete e s False))) = prompts (trace s) @ [M_confirm_prompt]
       \<and> inputs (trace (snd (batch_delete e s False))) = inputs (trace s) @ [i]"
proof -
  note f1 = validation_pass_fields [OF v]
  have o1: "prompts (trace s1) = prompts (trace s)" "inputs (trace s1) = inputs (trace s)"
    "delete_calls (trace s1) = delete_calls (trace s)"
    unfolding prompts_def inputs_def delete_calls_def
    by (rule validation_pass_silent [OF _ _ _ _ _ v]; simp)+
  obtain r2 s2 where g: "confirmation_gate s1 valid = (r2, s2)"
    by (cases "confirmation_gate s1 valid")
  have i1: "stdin s1 = i # rest" using i f1 by simp
  have r2: "r2 = SysExit 0"
    using confirmation_gate_result [of s1 valid] g i1 no by auto
  have c2: "delete_calls (trace s2) = delete_calls (trace s1)"
    unfolding delete_calls_def by (rule confirmation_gate_silent [OF _ _ _ _ g]) simp_all
  from confirmation_gate_inputs [OF i1, of valid] g have
    p2: "inputs (trace s2) = inputs (trace s1) @ [i]"
    "prompts (trace s2) = prompts (trace s1) @ [M_confirm_prompt]"
    by simp_all
  have "batch_delete e s False = (SysExit 0, s2)"
    using batch_delete_unfold [OF v, of False] ne g r2 by simp
  with o1 c2 p2 show ?thesis by simp
qed

theorem declined_confirmation_witness:
  "fst (validation_pass w_env (batch_begin (w_with [''web''] False [Line ''DELETE '']))) = Normal [''web'']
   \<and> stdin (w_with [''web''] False [Line ''DELETE '']) = [Line ''DELETE '']
   \<and> ''DELETE '' \<noteq> ''DELETE''
   \<and> fst (batch_delete w_env (w_with [''web''] False [Line ''DELETE '']) False) = SysExit 0
   \<and> delete_calls (trace (snd (batch_delete w_env (w_with [''web''] False [Line ''DELETE '']) False))) = []
   \<and> inputs (trace (snd (batch_delete w_env (w_with [''web''] False [Line ''DELETE '']) False)))
       = [Line ''DELETE '']"
proof -
  let ?s = "w_with [''web''] False [Line ''DELETE '']"
  have f: "fst (validation_pass w_env (batch_begin ?s)) = Normal [''web'']"
    by (simp add: run_defs)
  then have h: "validation_pass w_env (batch_begin ?s)
      = (Normal [''web''], snd (validation_pass w_env (batch_begin ?s)))"
    by (simp add: prod_eq_iff)
  have i: "stdin ?s = Line ''DELETE '' # []" by (simp add: w_with_def)
  have t: "trace ?s = []" by (simp add: w_with_def w_state_def)
  have ne: "[''web''] \<noteq> []" by simp
  have no: "Line ''DELETE '' = KeyboardInterrupt \<or> (\<exists>c. Line ''DELETE '' = Line c \<and> c \<noteq> ''DELETE'')"
    by simp
  from f i t declined_confirmation [OF h ne i no] show ?thesis
    by (simp add: inputs_def delete_calls_def)
qed

text \<open>
  C3. In a dry run, \<^verbatim>\<open>delete_repository\<close> only prints its notice and returns true; the
  whole of \<^verbatim>\<open>batch_delete\<close> runs no \<^verbatim>\<open>gh repo delete\<close> and writes no log line (so no
  \<^verbatim>\<open>SUCCESS\<close> or \<^verbatim>\<open>FAILED\<close> line); and when it ends normally, every candidate was
  validated, \<^verbatim>\<open>delete_repository\<close> was called on exactly the candidates that passed, and the
  success counter is their number.
\<close>

theorem dry_run_effects:
  assumes "dry_run s"
  shows "delete_repository e s repo
           = (Normal True, print_color (Delete (M_would_delete (target (username s) repo))) s)
       \<and> gh_deletes (trace (snd (batch_delete e s auto_confirm))) = gh_deletes (trace s)
       \<and> logs (trace (snd (batch_delete e s auto_confirm))) = logs (trace s)
       \<and> (fst (batch_delete e s auto_confirm) = Normal () \<longrightarrow>
            (\<exists>vs. view_results (trace (snd (batch_delete e s auto_confirm)))
                    = view_results (trace s) @ vs
                \<and> map fst vs = map (target (username s)) (repositories s)
                \<and> delete_calls (trace (snd (batch_delete e s auto_confirm)))
                    = delete_calls (trace s) @ map fst (filter (\<lambda>(t, ok). ok) vs)
                \<and> successful_deletions (snd (batch_delete e s auto_confirm))
                    = length (filter (\<lambda>(t, ok). ok) vs)))"
proof -
  obtain r s' where b: "batch_delete e s auto_confirm = (r, s')"
    by (cases "batch_delete e s auto_confirm")
  note dry = batch_delete_dry [OF assms b]
  have "\<exists>vs. view_results (trace s') = view_results (trace s) @ vs
          \<and> map fst vs = map (target (username s)) (repositories s)
          \<and> delete_calls (trace s') = delete_calls (trace s) @ map fst (filter (\<lambda>(t, ok). ok) vs)
          \<and> successful_deletions s' = length (filter (\<lambda>(t, ok). ok) vs)"
    if n: "r = Normal ()"
  proof -
    from b n obtain valid s1 where v: "validation_pass e (batch_begin s) = (Normal valid, s1)"
      by (auto elim: batch_delete_normal)
    from validation_pass_views [OF v] obtain vs where
      a: "view_results (trace s1) = view_results (trace s) @ vs"
      "map fst vs = map (target (username s)) (repositories s)"
      "valid = map fst (filter (\<lambda>(repo, t, ok). ok) (zip (repositories s) vs))"
      by blast
    from batch_delete_tail [OF v b] n have
      c: "delete_calls (trace s') = delete_calls (trace s) @ map (target (username s)) valid"
      "view_results (trace s') = view_results (trace s1)"
      by auto
    have k: "map (target (username s)) valid = map fst (filter (\<lambda>(t, ok). ok) vs)"
      unfolding a(3) by (rule kept_targets [OF a(2)])
    from k have "length valid = length (filter (\<lambda>(t, ok). ok) vs)"
      by (metis length_map)
    with dry(3) [OF v n] a c k show ?thesis
      by (intro exI [of _ vs]) simp
  qed
  with dry(1,2) b delete_repository_dry [OF assms] show ?thesis by simp
qed

theorem dry_run_effects_witness:
  "dry_run (w_with [''web'', ''gone''] True [])
   \<and> fst (delete_repository w_env (w_with [''web'', ''gone''] True []) ''web'') = Normal True
   \<and> gh_deletes (trace (snd (batch_delete w_env (w_with [''web'', ''gone''] True []) True))) = []
   \<and> logs (trace (snd (batch_delete w_env (w_with [''web'', ''gone''] True []) True))) = []
   \<and> fst (batch_delete w_env (w_with [''web'', ''gone''] True []) True) = Normal ()
   \<and> successful_deletions (snd (batch_delete w_env (w_with [''web'', ''gone''] True []) True)) = 1"
proof -
  have d: "dry_run (w_with [''web'', ''gone''] True [])"
    by (simp add: w_with_def)
  have t: "trace (w_with [''web'', ''gone''] True []) = []"
    by (simp add: w_with_def w_state_def)
  have n: "fst (batch_delete w_env (w_with [''web'', ''gone''] True []) True) = Normal ()"
    "successful_deletions (snd (batch_delete w_env (w_with [''web'', ''gone''] True []) True)) = 1"
    by (simp_all add: run_defs)
  from d n t dry_run_effects [OF d, of w_env "''web''" True] show ?thesis
    by (simp add: gh_deletes_def logs_def)
qed

text \<open>
  C8. When \<^verbatim>\<open>batch_delete\<close> reaches its summary (it returns normally): with \<open>vs\<close> the answers
  of the validation pass and \<open>ds\<close> what the calls of \<^verbatim>\<open>delete_repository\<close> returned, the
  failure counter is the number of candidates that failed validation plus the number of
  deletions that failed, the success counter is the number of calls that returned true
  (the dry-run notices included), and the number printed as \<^verbatim>\<open>Total processed\<close> is the sum
  of the two counters.
\<close>

theorem summary_counts:
  assumes "batch_delete e s auto_confirm = (Normal (), s')"
  shows "\<exists>vs ds. view_results (trace s') = view_results (trace s) @ vs
        \<and> delete_results (trace s') = delete_results (trace s) @ ds
        \<and> failed_deletions s'
            = length (filter (\<lambda>(t, ok). \<not> ok) vs) + length (filter (\<lambda>ok. \<not> ok) ds)
        \<and> successful_deletions s' = length (filter (\<lambda>ok. ok) ds)
        \<and> totals_printed (trace s')
            = totals_printed (trace s) @ [successful_deletions s' + failed_deletions s']"
proof -
  from assms obtain valid s1 where v: "validation_pass e (batch_begin s) = (Normal valid, s1)"
    by (rule batch_delete_normal)
  from validation_pass_views [OF v] obtain vs where
    a: "view_results (trace s1) = view_results (trace s) @ vs"
    "failed_deletions s1 = length (filter (\<lambda>(t, ok). \<not> ok) vs)"
    by blast
  from batch_delete_tail [OF v assms] obtain ds where
    c: "delete_results (trace s') = delete_results (trace s) @ ds"
    "successful_deletions s' = length (filter (\<lambda>ok. ok) ds)"
    "failed_deletions s' = failed_deletions s1 + length (filter (\<lambda>ok. \<not> ok) ds)"
    "view_results (trace s') = view_results (trace s1)"
    "totals_printed (trace s')
       = totals_printed (trace s) @ [successful_deletions s' + failed_deletions s']"
    by blast
  show ?thesis
    using a c by (intro exI [of _ vs] exI [of _ ds]) simp
qed

theorem summary_counts_witness:
  "fst (batch_delete w_env w_state True) = Normal ()
   \<and> successful_deletions (snd (batch_delete w_env w_state True)) = 2
   \<and> failed_deletions (snd (batch_delete w_env w_state True)) = 2
   \<and> totals_printed (trace (snd (batch_delete w_env w_state True))) = [4]
   \<and> (\<exists>vs ds. view_results (trace (snd (batch_delete w_env w_state True)))
                   = view_results (trace w_state) @ vs
        \<and> delete_results (trace (snd (batch_delete w_env w_state True)))
            = delete_results (trace w_state) @ ds
        \<and> failed_deletions (snd (batch_delete w_env w_state True))
            = length (filter (\<lambda>(t, ok). \<not> ok) vs) + length (filter (\<lambda>ok. \<not> ok) ds)
        \<and> successful_deletions (snd (batch_delete w_env w_state True))
            = length (filter (\<lambda>ok. ok) ds)
        \<and> totals_printed (trace (snd (batch_delete w_env w_state True)))
            = totals_printed (trace w_state)
              @ [successful_deletions (snd (batch_delete w_env w_state True))
                 + failed_deletions (snd (batch_delete w_env w_state True))])"
proof -
  have f: "fst (batch_delete w_env w_state True) = Normal ()"
    "successful_deletions (snd (batch_delete w_env w_state True)) = 2"
    "failed_deletions (snd (batch_delete w_env w_state True)) = 2"
    "totals_printed (trace (snd (batch_delete w_env w_state True))) = [4]"
    by (simp_all add: run_defs totals_printed_def)
  then have h: "batch_delete w_env w_state True
      = (Normal (), snd (batch_delete w_env w_state True))"
    by (simp add: prod_eq_iff)
  from f summary_counts [OF h] show ?thesis by blast
qed

section \<open>The interactive picker\<close>

text \<open>
  C10. The picker compares the lower-cased answer with \<^verbatim>\<open>all\<close>: when the repositories
  listed are \<open>repos\<close> (not empty) and the line typed has the lower-case form \<^verbatim>\<open>all\<close>
  (\<^verbatim>\<open>ALL\<close>, \<^verbatim>\<open>All\<close>, ...), the picker returns normally with every listed repository
  selected, in listed order.
\<close>

theorem all_matches_any_case:
  assumes "list_repositories e (picker_header s) = (Normal repos, s1)" and "repos \<noteq> []"
    and "stdin s = Line answer # rest" and "py_lower answer = ''all''"
  shows "fst (interactive_selection e s) = Normal ()
       \<and> repositories (snd (interactive_selection e s)) = repos"
proof -
  have i: "stdin s1 = Line answer # rest"
    using list_repositories_fields(2) [OF assms(1)] assms(3) by simp
  have l: "py_lower (py_strip answer) = ''all''"
    using assms(4) lower_all_no_strip by simp
  from select_from_line(1) [OF assms(2) i l] interactive_selection_listed [OF assms(1)]
  show ?thesis by (simp add: prod_eq_iff)
qed

theorem all_matches_any_case_witness:
  "fst (list_repositories w_env (picker_header (w_with [] False [Line ''All''])))
     = Normal [''web'', ''api'', ''old'', ''docs'', ''blog'']
   \<and> py_lower ''All'' = ''all''
   \<and> fst (interactive_selection w_env (w_with [] False [Line ''All''])) = Normal ()
   \<and> repositories (snd (interactive_selection w_env (w_with [] False [Line ''All''])))
       = [''web'', ''api'', ''old'', ''docs'', ''blog'']"
proof -
  let ?s = "w_with [] False [Line ''All'']"
  have f: "fst (list_repositories w_env (picker_header ?s))
           = Normal [''web'', ''api'', ''old'', ''docs'', ''blog'']"
    by (simp add: picker_defs)
  then have h: "list_repositories w_env (picker_header ?s)
      = (Normal [''web'', ''api'', ''old'', ''docs'', ''blog''],
         snd (list_repositories w_env (picker_header ?s)))"
    by (simp add: prod_eq_iff)
  have ne: "[''web'', ''api'', ''old'', ''docs'', ''blog''] \<noteq> []" by simp
  have i: "stdin ?s = Line ''All'' # []" by (simp add: w_with_def)
  have l: "py_lower ''All'' = ''all''" by (simp add: py_lower_def lower_char_def)
  from f l all_matches_any_case [OF h ne i l] show ?thesis by simp
qed




section \<open>Input resolution in \<^verbatim>\<open>main\<close>\<close>

text \<open>
  C9. Whenever \<^verbatim>\<open>main\<close> gets as far as line 380, the repository list is not empty: the
  picker, which runs whenever the list is still empty, either leaves a selection that is
  not empty or ends the run itself. So the branch of lines 380 to 383 is never taken:
  \<^verbatim>\<open>main\<close> is what it would be without it, and it calls \<^verbatim>\<open>batch_delete\<close> on a list that is
  not empty.
\<close>

theorem batch_list_nonempty:
  "(main_resolve e a inp = (Normal (), s) \<longrightarrow> repositories s \<noteq> [])
   \<and> (interactive_selection e s0 = (Normal (), s0') \<longrightarrow> repositories s0' \<noteq> [])
   \<and> main e a inp =
       (case main_resolve e a inp of
          (Normal u, s) \<Rightarrow> batch_delete e s (arg_auto_confirm a)
        | (SysExit k, s) \<Rightarrow> (SysExit k, s)
        | (Uncaught x, s) \<Rightarrow> (Uncaught x, s))"
  using main_resolve_nonempty [of e a inp s] interactive_selection_nonempty [of e s0 s0']
    main_without_the_check [of e a inp]
  by blast

theorem batch_list_nonempty_witness:
  "fst (main_resolve w_env w_args [Line ''2'']) = Normal ()
   \<and> repositories (snd (main_resolve w_env w_args [Line ''2''])) = [''api'']
   \<and> fst (interactive_selection w_env (w_with [] False [Line ''2''])) = Normal ()
   \<and> repositories (snd (interactive_selection w_env (w_with [] False [Line ''2'']))) \<noteq> []
   \<and> main w_env w_args [Line ''2'']
       = batch_delete w_env (snd (main_resolve w_env w_args [Line ''2''])) True"
proof -
  let ?s = "snd (main_resolve w_env w_args [Line ''2''])"
  let ?t = "snd (interactive_selection w_env (w_with [] False [Line ''2'']))"
  have f: "fst (main_resolve w_env w_args [Line ''2'']) = Normal ()"
    "repositories ?s = [''api'']"
    by (simp_all add: main_defs picker_defs)
  have g: "fst (interactive_selection w_env (w_with [] False [Line ''2''])) = Normal ()"
    by (simp add: picker_defs)
  have h: "main_resolve w_env w_args [Line ''2''] = (Normal (), ?s)"
    and i: "interactive_selection w_env (w_with [] False [Line ''2'']) = (Normal (), ?t)"
    using f g by (simp_all add: prod_eq_iff)
  have a: "arg_auto_confirm w_args = True" by (simp add: w_args_def)
  from batch_list_nonempty [of w_env w_args "[Line ''2'']" ?s "w_with [] False [Line ''2'']" ?t]
    h i
  have "repositories ?t \<noteq> []"
    and "main w_env w_args [Line ''2'']
         = (case main_resolve w_env w_args [Line ''2''] of
              (Normal u, s) \<Rightarrow> batch_delete w_env s (arg_auto_confirm w_args)
            | (SysExit k, s) \<Rightarrow> (SysExit k, s)
            | (Uncaught x, s) \<Rightarrow> (Uncaught x, s))"
    by blast+
  with f g a show ?thesis by (simp add: case_prod_unfold)
qed

text \<open>
  C4, as amended. When \<^verbatim>\<open>--username\<close> is given and the \<^verbatim>\<open>--config\<close> file is an object
  with a \<^verbatim>\<open>username\<close> that is not empty, the username of the configuration file replaces
  the one of the flag; the flag's username stays only when the file has no \<^verbatim>\<open>username\<close> or
  an empty one. The username kept is the one \<^verbatim>\<open>batch_delete\<close> is called with, and every
  \<^verbatim>\<open>gh repo view\<close> and every call of \<^verbatim>\<open>delete_repository\<close> is on a target under it.

  The claim as written gives the flag precedence. The counterexample is the command line
  \<^verbatim>\<open>--username alice --config team.json --auto-confirm\<close>, where \<^verbatim>\<open>team.json\<close> names the
  user \<^verbatim>\<open>bob\<close> and the repository \<^verbatim>\<open>web\<close>: the repository validated and deleted is
  \<^verbatim>\<open>bob/web\<close>.
\<close>

theorem config_username_overrides_flag:
  assumes "main_resolve e a inp = (Normal (), s)"
    and "given (arg_username a)" and "given (arg_config a)"
    and "config_at e (the (arg_config a)) = Config cu cr"
  shows "username s = (case cu of Some u \<Rightarrow> if u \<noteq> [] then u else the (arg_username a)
                       | None \<Rightarrow> the (arg_username a))
       \<and> main e a inp = batch_delete e s (arg_auto_confirm a)
       \<and> (\<forall>valid s1. validation_pass e (batch_begin s) = (Normal valid, s1) \<longrightarrow>
            (\<exists>vs k. view_results (trace s1) = view_results (trace s) @ vs
                  \<and> map fst vs = map (target (username s)) (repositories s)
                  \<and> delete_calls (trace (snd (main e a inp)))
                      = delete_calls (trace s) @ map (target (username s)) (take k valid)))"
proof -
  from assms(1) obtain s1 where
    c: "main_checks e (main_init a inp) = (Normal (), s1)" and
    i: "main_inputs e a s1 = (Normal (), s)"
    by (rule main_resolve_steps)
  have u0: "username (main_init a inp) = the (arg_username a)"
    using assms(2) by (simp add: main_init_username)
  have "username (main_init a inp) \<noteq> []"
    using assms(2) u0 by (auto simp: given_def split: option.splits)
  from main_checks_username [OF this c] u0 have u1: "username s1 = the (arg_username a)"
    by simp
  have u: "username s = (case cu of Some u \<Rightarrow> if u \<noteq> [] then u else the (arg_username a)
                         | None \<Rightarrow> the (arg_username a))"
    using main_inputs_username [OF i assms(3,4)] u1 by (simp split: option.split)
  have m: "main e a inp = batch_delete e s (arg_auto_confirm a)"
    using main_without_the_check [of e a inp] assms(1) by simp
  have "\<exists>vs k. view_results (trace s1') = view_results (trace s) @ vs
                  \<and> map fst vs = map (target (username s)) (repositories s)
                  \<and> delete_calls (trace (snd (main e a inp)))
                      = delete_calls (trace s) @ map (target (username s)) (take k valid)"
    if v: "validation_pass e (batch_begin s) = (Normal valid, s1')" for valid s1'
  proof -
    from validation_pass_views [OF v] obtain vs where
      a: "view_results (trace s1') = view_results (trace s) @ vs"
      "map fst vs = map (target (username s)) (repositories s)"
      by blast
    obtain r s' where b: "batch_delete e s (arg_auto_confirm a) = (r, s')"
      by (cases "batch_delete e s (arg_auto_confirm a)")
    from batch_delete_tail [OF v b] obtain k where
      "delete_calls (trace s') = delete_calls (trace s) @ map (target (username s)) (take k valid)"
      by blast
    with a b m show ?thesis by (intro exI [of _ vs] exI [of _ k]) simp
  qed
  with u m show ?thesis by blast
qed

theorem config_username_overrides_flag_witness:
  "fst (main_resolve w_env (w_args\<lparr>arg_username := Some ''alice'', arg_config := Some ''team.json''\<rparr>) [])
     = Normal ()
   \<and> config_at w_env ''team.json'' = Config (Some ''bob'') (Some [''web''])
   \<and> username (snd (main_resolve w_env
         (w_args\<lparr>arg_username := Some ''alice'', arg_config := Some ''team.json''\<rparr>) [])) = ''bob''
   \<and> fst (validation_pass w_env (batch_begin (snd (main_resolve w_env
         (w_args\<lparr>arg_username := Some ''alice'', arg_config := Some ''team.json''\<rparr>) []))))
       = Normal [''web'']
   \<and> config_at w_env ''repos.json'' = Config None (Some [''web'', ''api''])
   \<and> username (snd (main_resolve w_env
         (w_args\<lparr>arg_username := Some ''alice'', arg_config := Some ''repos.json''\<rparr>) [])) = ''alice''"
proof -
  let ?a = "w_args\<lparr>arg_username := Some ''alice'', arg_config := Some ''team.json''\<rparr>"
  let ?b = "w_args\<lparr>arg_username := Some ''alice'', arg_config := Some ''repos.json''\<rparr>"
  have f: "fst (main_resolve w_env ?a []) = Normal ()" "fst (main_resolve w_env ?b []) = Normal ()"
    by (simp_all add: main_defs picker_defs)
  have h: "main_resolve w_env ?a [] = (Normal (), snd (main_resolve w_env ?a []))"
    "main_resolve w_env ?b [] = (Normal (), snd (main_resolve w_env ?b []))"
    using f by (simp_all add: prod_eq_iff)
  have g: "given (arg_username ?a)" "given (arg_config ?a)"
    "given (arg_username ?b)" "given (arg_config ?b)"
    by (simp_all add: given_def w_args_def)
  have c: "config_at w_env (the (arg_config ?a)) = Config (Some ''bob'') (Some [''web''])"
    "config_at w_env (the (arg_config ?b)) = Config None (Some [''web'', ''api''])"
    by (simp_all add: w_env_def w_args_def)
  have v: "fst (validation_pass w_env (batch_begin (snd (main_resolve w_env ?a []))))
           = Normal [''web'']"
    by (simp add: main_defs picker_defs run_defs)
  from config_username_overrides_flag [OF h(1) g(1,2) c(1)]
    config_username_overrides_flag [OF h(2) g(3,4) c(2)] f c v
  show ?thesis by (simp add: w_args_def)
qed

theorem flag_precedence_counterexample:
  "arg_username (w_args\<lparr>arg_username := Some ''alice'', arg_config := Some ''team.json''\<rparr>)
     = Some ''alice''
   \<and> config_at w_env ''team.json'' = Config (Some ''bob'') (Some [''web''])
   \<and> fst (main w_env (w_args\<lparr>arg_username := Some ''alice'', arg_config := Some ''team.json''\<rparr>) [])
       = Normal ()
   \<and> view_results (trace (snd (main w_env
         (w_args\<lparr>arg_username := Some ''alice'', arg_config := Some ''team.json''\<rparr>) [])))
       = [(''bob/web'', True)]
   \<and> delete_calls (trace (snd (main w_env
         (w_args\<lparr>arg_username := Some ''alice'', arg_config := Some ''team.json''\<rparr>) [])))
       = [''bob/web'']"
  by (simp add: main_defs picker_defs run_defs view_results_def delete_calls_def)

end
